theory Spec2Isabelle
  imports Main "HOL-Library.AList" "HOL-Library.Product_Lexorder" "HOL-Library.Code_Target_Nat"
begin

section \<open>Python strings\<close>

text \<open>
  A Python \<^verbatim>\<open>str\<close> is a sequence of Unicode code points; a code point is a natural
  number here.  \<open>lit\<close> gives the string of a literal of the script, whose characters are
  ASCII.
\<close>

type_synonym pystr = "nat list"

definition lit :: "string \<Rightarrow> pystr" where
  "lit s = map (of_char :: char \<Rightarrow> nat) s"

section \<open>File names\<close>

text \<open>
  \<^verbatim>\<open>clean_filename(title)\<close> is \<^verbatim>\<open>re.sub(r'[<>:"/\\|?*]', '', title)\<close>: every
  occurrence of one of the nine characters of the class is deleted, every other
  character is kept in place.
\<close>

definition illegal_chars :: pystr where
  "illegal_chars =
     lit [CHR ''<'', CHR ''>'', CHR '':'', CHR 0x22, CHR ''/'', CHR 0x5C, CHR ''|'', CHR ''?'', CHR ''*'']"

definition clean_filename :: "pystr \<Rightarrow> pystr" where
  "clean_filename title = filter (\<lambda>c. c \<notin> set illegal_chars) title"

section \<open>Python values used by the menu code\<close>

text \<open>
  The exceptions the menu code can raise: \<^verbatim>\<open>int\<close> raises ValueError for a string it
  cannot read, iterating over \<^verbatim>\<open>None\<close> or formatting it with a width raises TypeError,
  reading a missing dictionary key raises KeyError.
\<close>

datatype py_error = ValueError | TypeError | KeyError

text \<open>
  A stream descriptor, with the attributes of a pytubefix stream that the script reads.
  \<open>resolution\<close> and \<open>abr\<close> are \<^verbatim>\<open>None\<close> or a string; \<open>itag\<close> identifies the
  stream.
\<close>

record stream =
  itag :: nat
  includes_video_track :: bool
  includes_audio_track :: bool
  subtype :: pystr
  resolution :: "pystr option"
  abr :: "pystr option"
  filesize :: int
  is_progressive :: bool

text \<open>
  The decimal digits of Unicode come in runs of ten consecutive code points, for the values
  0 to 9 in this order; \<open>decimal_zeros\<close> lists the code point of the zero of each run.
  \<^verbatim>\<open>int\<close> reads these characters, of any script, as digits.  \<^verbatim>\<open>str.isdigit\<close> is true of
  them and also of the characters of \<open>other_digits\<close> (superscript, subscript, circled digits
  and the like, given as ranges of code points), which \<^verbatim>\<open>int\<close> rejects.  The tables are
  those of Unicode 14.0, the version of CPython 3.11; the ASCII digits are the run at 48.
\<close>

definition decimal_zeros :: "nat list" where
  "decimal_zeros =
     48 #
     [1632, 1776, 1984, 2406, 2534, 2662, 2790, 2918, 3046, 3174, 3302, 3430, 3558, 3664,
      3792, 3872, 4160, 4240, 6112, 6160, 6470, 6608, 6784, 6800, 6992, 7088, 7232, 7248,
      42528, 43216, 43264, 43472, 43504, 43600, 44016, 65296, 66720, 68912, 69734, 69872,
      69942, 70096, 70384, 70736, 70864, 71248, 71360, 71472, 71904, 72016, 72784, 73040,
      73120, 92768, 92864, 93008, 120782, 120792, 120802, 120812, 120822, 123200, 123632,
      125264, 130032]"

definition other_digits :: "(nat \<times> nat) list" where
  "other_digits =
     [(178, 179), (185, 185), (4969, 4977), (6618, 6618), (8304, 8304), (8308, 8313),
      (8320, 8329), (9312, 9320), (9332, 9340), (9352, 9360), (9450, 9450), (9461, 9469),
      (9471, 9471), (10102, 10110), (10112, 10120), (10122, 10130), (68160, 68163),
      (69216, 69224), (69714, 69722), (127232, 127242)]"

text \<open>The value of a decimal digit, \<open>None\<close> for any other character.\<close>

definition decimal_value :: "nat \<Rightarrow> nat option" where
  "decimal_value c =
     (case find (\<lambda>zero. zero \<le> c \<and> c \<le> zero + 9) decimal_zeros of
        None \<Rightarrow> None
      | Some zero \<Rightarrow> Some (c - zero))"

text \<open>\<^verbatim>\<open>str.isdigit\<close> of one character.\<close>

definition isdigit :: "nat \<Rightarrow> bool" where
  "isdigit c =
     (case decimal_value c of
        Some d \<Rightarrow> True
      | None \<Rightarrow> list_ex (\<lambda>(first, last). first \<le> c \<and> c \<le> last) other_digits)"

text \<open>
  \<^verbatim>\<open>int(s)\<close> raises ValueError for a string of more digits than the interpreter's limit
  \<^verbatim>\<open>sys.get_int_max_str_digits()\<close>, which is 4300 unless it is set otherwise; the script
  does not set it.  Leading zeros count.
\<close>

definition int_max_str_digits :: nat where
  "int_max_str_digits = 4300"

text \<open>
  \<^verbatim>\<open>int(''.join(filter(str.isdigit, x)))\<close>.  The filter keeps the characters of \<open>x\<close> of
  which \<^verbatim>\<open>str.isdigit\<close> is true, in order.  \<^verbatim>\<open>int\<close> raises ValueError when nothing is
  left, when one of the characters left is not a decimal digit, and when more than 4300
  characters are left; otherwise it returns the number that the decimal digits spell,
  which is never negative.
\<close>

definition int_of_digits :: "pystr \<Rightarrow> py_error + nat" where
  "int_of_digits x =
     (let ds = filter isdigit x
      in if ds = [] then Inl ValueError
         else (case those (map decimal_value ds) of
                 None \<Rightarrow> Inl ValueError
               | Some digits \<Rightarrow>
                   if int_max_str_digits < length digits then Inl ValueError
                   else Inr (foldl (\<lambda>n d. 10 * n + d) 0 digits)))"

text \<open>
  The decimal digits of a non-negative integer: ASCII digits, without leading zero.
\<close>

function str_nat :: "nat \<Rightarrow> pystr" where
  "str_nat n =
     (if n < 10 then [48 + n]
      else str_nat (n div 10) @ [48 + n mod 10])"
  by pat_completeness auto
termination
  by (relation "measure (\<lambda>n. n)") auto

declare str_nat.simps [simp del]

text \<open>
  \<^verbatim>\<open>str(n)\<close> for a non-negative integer, as an f-string prints it.  The conversion
  raises ValueError for a number of more digits than the interpreter's limit.
\<close>

definition str_int :: "nat \<Rightarrow> py_error + pystr" where
  "str_int n =
     (if int_max_str_digits < length (str_nat n) then Inl ValueError else Inr (str_nat n))"

text \<open>
  The test \<^verbatim>\<open>'hd' in x.lower()\<close>.  \<^verbatim>\<open>str.lower\<close> maps the letters A to Z to a to z.  It
  also changes characters outside ASCII, but it maps no character other than H, h, D and d
  to a string with an h or a d in it and none to the empty string; so the test is the same
  when only the ASCII letters are lowered.
\<close>

definition lower_char :: "nat \<Rightarrow> nat" where
  "lower_char c = (if 65 \<le> c \<and> c \<le> 90 then c + 32 else c)"

fun contains_hd :: "pystr \<Rightarrow> bool" where
  "contains_hd (a # b # cs) = ((a = 104 \<and> b = 100) \<or> contains_hd (b # cs))"
| "contains_hd _ = False"

text \<open>Truth value of \<^verbatim>\<open>stream.abr\<close>: \<^verbatim>\<open>None\<close> and the empty string are false.\<close>

definition truthy :: "pystr option \<Rightarrow> bool" where
  "truthy a = (case a of None \<Rightarrow> False | Some x \<Rightarrow> x \<noteq> [])"

section \<open>Sorting and dictionaries as Python has them\<close>

text \<open>
  A \<^verbatim>\<open>dict\<close> keeps its keys in insertion order: it is an association list, a store to
  an existing key keeps the key's place and a store to a new key appends
  (\<^const>\<open>AList.update\<close>).  \<^verbatim>\<open>k in d\<close> is \<open>map_of d k \<noteq> None\<close>.

  \<^verbatim>\<open>sorted(xs, key=f, reverse=True)\<close> first computes the key of every element, in
  order (the first failing key raises), then reverses the list, sorts it stably in
  ascending key order and reverses the result: elements with equal keys keep their
  original order.
\<close>

fun keys_of :: "('a \<Rightarrow> py_error + 'k) \<Rightarrow> 'a list \<Rightarrow> py_error + ('k \<times> 'a) list" where
  "keys_of f [] = Inr []"
| "keys_of f (x # xs) =
     (case f x of
        Inl e \<Rightarrow> Inl e
      | Inr k \<Rightarrow> (case keys_of f xs of Inl e \<Rightarrow> Inl e | Inr ks \<Rightarrow> Inr ((k, x) # ks)))"

definition sorted_reverse :: "('a \<Rightarrow> py_error + 'k::linorder) \<Rightarrow> 'a list \<Rightarrow> py_error + 'a list" where
  "sorted_reverse f xs =
     (case keys_of f xs of
        Inl e \<Rightarrow> Inl e
      | Inr kxs \<Rightarrow> Inr (map snd (rev (sort_key fst (rev kxs)))))"

text \<open>\<^verbatim>\<open>[d[k] for k in ks]\<close>, as the loops that build the ordered lists do.\<close>

fun lookup_all :: "('k \<times> 'v) list \<Rightarrow> 'k list \<Rightarrow> py_error + 'v list" where
  "lookup_all d [] = Inr []"
| "lookup_all d (k # ks) =
     (case map_of d k of
        None \<Rightarrow> Inl KeyError
      | Some v \<Rightarrow> (case lookup_all d ks of Inl e \<Rightarrow> Inl e | Inr vs \<Rightarrow> Inr (v # vs)))"

section \<open>The menu: \<^verbatim>\<open>organize_streams\<close>\<close>

subsection \<open>First loop: video dictionary, audio list, best audio\<close>

text \<open>
  The video branch of the loop body.  A "1080p" stream goes to key "1080p_hd" when that
  key is free, and to key "1080p" when it is smaller than the stream under "1080p_hd";
  any other resolution (also \<^verbatim>\<open>None\<close>) is stored under itself when that key is free.
\<close>

definition video_step :: "stream \<Rightarrow> (pystr option \<times> stream) list \<Rightarrow> (pystr option \<times> stream) list" where
  "video_step s d =
     (if resolution s = Some (lit ''1080p'') then
        (case map_of d (Some (lit ''1080p_hd'')) of
           None \<Rightarrow> AList.update (Some (lit ''1080p_hd'')) s d
         | Some primary \<Rightarrow>
             if filesize s < filesize primary then AList.update (Some (lit ''1080p'')) s d else d)
      else if map_of d (resolution s) = None then AList.update (resolution s) s d
      else d)"

text \<open>
  The condition \<^verbatim>\<open>best_audio is None or (stream.abr and best_audio.abr and
  int(digits of stream.abr) > int(digits of best_audio.abr))\<close>.
\<close>

definition better_audio :: "stream \<Rightarrow> stream option \<Rightarrow> py_error + bool" where
  "better_audio s best =
     (case best of
        None \<Rightarrow> Inr True
      | Some b \<Rightarrow>
          (case (abr s, abr b) of
             (Some x, Some y) \<Rightarrow>
               if x \<noteq> [] \<and> y \<noteq> [] then
                 (case int_of_digits x of
                    Inl e \<Rightarrow> Inl e
                  | Inr n \<Rightarrow> (case int_of_digits y of Inl e \<Rightarrow> Inl e | Inr m \<Rightarrow> Inr (m < n)))
               else Inr False
           | _ \<Rightarrow> Inr False))"

type_synonym collect_state = "(pystr option \<times> stream) list \<times> stream list \<times> stream option"

fun collect_step :: "bool \<Rightarrow> stream \<Rightarrow> collect_state \<Rightarrow> py_error + collect_state" where
  "collect_step verbose s (video_streams, audio_streams, best_audio) =
     (if includes_video_track s then
        (if \<not> verbose \<and> subtype s = (lit ''webm'') then Inr (video_streams, audio_streams, best_audio)
         else Inr (video_step s video_streams, audio_streams, best_audio))
      else if includes_audio_track s \<and> \<not> includes_video_track s then
        (case better_audio s best_audio of
           Inl e \<Rightarrow> Inl e
         | Inr b \<Rightarrow>
             Inr (video_streams, audio_streams @ [s], if b then Some s else best_audio))
      else Inr (video_streams, audio_streams, best_audio))"

fun collect_streams :: "bool \<Rightarrow> stream list \<Rightarrow> collect_state \<Rightarrow> py_error + collect_state" where
  "collect_streams verbose [] st = Inr st"
| "collect_streams verbose (s # ss) st =
     (case collect_step verbose s st of
        Inl e \<Rightarrow> Inl e
      | Inr st' \<Rightarrow> collect_streams verbose ss st')"

subsection \<open>Ordering the video entries\<close>

text \<open>
  The sort key \<^verbatim>\<open>(int(digits of x), 'hd' in x.lower())\<close> of a dictionary key; the key
  \<^verbatim>\<open>None\<close> cannot be iterated over.  Pairs compare lexicographically, \<open>False < True\<close>.
\<close>

definition video_sort_key :: "pystr option \<Rightarrow> py_error + (nat \<times> bool)" where
  "video_sort_key k =
     (case k of
        None \<Rightarrow> Inl TypeError
      | Some x \<Rightarrow>
          (case int_of_digits x of
             Inl e \<Rightarrow> Inl e
           | Inr n \<Rightarrow> Inr (n, contains_hd (map lower_char x))))"

definition order_video :: "(pystr option \<times> stream) list \<Rightarrow> py_error + stream list" where
  "order_video video_streams =
     (case sorted_reverse video_sort_key (map fst video_streams) of
        Inl e \<Rightarrow> Inl e
      | Inr resolutions \<Rightarrow> lookup_all video_streams resolutions)"

subsection \<open>Ranking the audio streams\<close>

text \<open>
  \<^verbatim>\<open>int(digits of (stream.abr if stream.abr else "128"))\<close> and the dictionary key
  \<^verbatim>\<open>f"{bitrate}kbps"\<close>.
\<close>

definition bitrate_of :: "stream \<Rightarrow> py_error + nat" where
  "bitrate_of s =
     int_of_digits (case abr s of None \<Rightarrow> (lit ''128'') | Some x \<Rightarrow> if x = [] then (lit ''128'') else x)"

definition audio_key :: "nat \<Rightarrow> py_error + pystr" where
  "audio_key bitrate =
     (case str_int bitrate of
        Inl e \<Rightarrow> Inl e
      | Inr digits \<Rightarrow> Inr (digits @ lit ''kbps''))"

definition audio_step :: "stream \<Rightarrow> (pystr \<times> stream) list \<Rightarrow> py_error + (pystr \<times> stream) list" where
  "audio_step s audio_quality =
     (case bitrate_of s of
        Inl e \<Rightarrow> Inl e
      | Inr bitrate \<Rightarrow>
          (case audio_key bitrate of
             Inl e \<Rightarrow> Inl e
           | Inr key \<Rightarrow>
               (case map_of audio_quality key of
                  None \<Rightarrow> Inr (AList.update key s audio_quality)
                | Some old \<Rightarrow>
                    if filesize s < filesize old
                    then Inr (AList.update key s audio_quality)
                    else Inr audio_quality)))"

fun audio_dedup :: "stream list \<Rightarrow> (pystr \<times> stream) list \<Rightarrow> py_error + (pystr \<times> stream) list" where
  "audio_dedup [] audio_quality = Inr audio_quality"
| "audio_dedup (s # ss) audio_quality =
     (case audio_step s audio_quality of
        Inl e \<Rightarrow> Inl e
      | Inr d \<Rightarrow> audio_dedup ss d)"

definition rank_audio :: "stream list \<Rightarrow> py_error + stream list" where
  "rank_audio audio_streams =
     (case audio_dedup audio_streams [] of
        Inl e \<Rightarrow> Inl e
      | Inr audio_quality \<Rightarrow>
          (case sorted_reverse int_of_digits (map fst audio_quality) of
             Inl e \<Rightarrow> Inl e
           | Inr bitrates \<Rightarrow> lookup_all audio_quality bitrates))"

subsection \<open>Virtual MP3 and AAC entries\<close>

record virtual_stream =
  vtype :: pystr
  vsubtype :: pystr
  vabr :: pystr
  vfilesize :: int
  vaudio_codec :: pystr
  original_stream :: stream

datatype menu_item = Raw stream | Virtual virtual_stream

text \<open>\<^verbatim>\<open>bitrate = audio.abr if audio.abr else "160kbps"\<close>.\<close>

definition virtual_label :: "stream \<Rightarrow> pystr" where
  "virtual_label audio =
     (case abr audio of None \<Rightarrow> (lit ''160kbps'') | Some x \<Rightarrow> if x = [] then (lit ''160kbps'') else x)"

definition mp3_stream :: "stream \<Rightarrow> virtual_stream" where
  "mp3_stream audio =
     \<lparr>vtype = (lit ''audio''), vsubtype = (lit ''mp3''), vabr = virtual_label audio,
      vfilesize = filesize audio, vaudio_codec = (lit ''mp3''), original_stream = audio\<rparr>"

definition aac_stream :: "stream \<Rightarrow> virtual_stream" where
  "aac_stream audio =
     \<lparr>vtype = (lit ''audio''), vsubtype = (lit ''aac''), vabr = virtual_label audio,
      vfilesize = filesize audio, vaudio_codec = (lit ''aac''), original_stream = audio\<rparr>"

fun virtual_streams :: "stream list \<Rightarrow> virtual_stream list" where
  "virtual_streams [] = []"
| "virtual_streams (audio # rest) = mp3_stream audio # aac_stream audio # virtual_streams rest"

subsection \<open>The whole function\<close>

text \<open>
  \<^verbatim>\<open>organize_streams(yt, verbose)\<close> on the list \<^verbatim>\<open>yt.streams\<close>.  A stream object is
  always true, so \<^verbatim>\<open>if best_audio:\<close> asks whether an audio-only stream was seen.
\<close>

definition organize_streams :: "stream list \<Rightarrow> bool \<Rightarrow> py_error + (stream list \<times> menu_item list)" where
  "organize_streams streams verbose =
     (case collect_streams verbose streams ([], [], None) of
        Inl e \<Rightarrow> Inl e
      | Inr (video_streams, audio_streams, best_audio) \<Rightarrow>
          (case order_video video_streams of
             Inl e \<Rightarrow> Inl e
           | Inr ordered_streams \<Rightarrow>
               (case rank_audio audio_streams of
                  Inl e \<Rightarrow> Inl e
                | Inr ranked \<Rightarrow>
                    Inr (ordered_streams,
                         (case best_audio of
                            None \<Rightarrow> map Raw ranked
                          | Some _ \<Rightarrow>
                              if verbose
                              then map Raw ranked @ map Virtual (virtual_streams ranked)
                              else map Virtual (take 2 (virtual_streams ranked)))))))"

subsection \<open>The printed menu\<close>

text \<open>
  \<^verbatim>\<open>print_stream_options\<close> prints one row for each entry; the columns kept here are
  quality, format and size, the size as the number of bytes.  The video entries are
  numbered from 1; the quality of a video entry is its resolution, with "+" appended when
  the resolution is "1080p" and the entry is number 1.  Formatting \<^verbatim>\<open>None\<close> with a width
  raises TypeError.  The quality of a virtual audio entry is its label, that of an
  original audio stream is its \<open>abr\<close>, or "128kbps" without one.
\<close>

fun video_rows :: "nat \<Rightarrow> stream list \<Rightarrow> py_error + (pystr \<times> pystr \<times> int) list" where
  "video_rows i [] = Inr []"
| "video_rows i (s # ss) =
     (case resolution s of
        None \<Rightarrow> Inl TypeError
      | Some quality \<Rightarrow>
          (case video_rows (i + 1) ss of
             Inl e \<Rightarrow> Inl e
           | Inr rows \<Rightarrow>
               Inr ((if quality = (lit ''1080p'') \<and> i = 1 then quality @ (lit ''+'') else quality,
                     subtype s, filesize s) # rows)))"

definition audio_row :: "menu_item \<Rightarrow> pystr \<times> pystr \<times> int" where
  "audio_row item =
     (case item of
        Virtual v \<Rightarrow> (vabr v, vsubtype v, vfilesize v)
      | Raw s \<Rightarrow>
          ((case abr s of None \<Rightarrow> (lit ''128kbps'') | Some x \<Rightarrow> if x = [] then (lit ''128kbps'') else x),
           subtype s, filesize s))"

definition print_stream_options ::
  "stream list \<Rightarrow> menu_item list \<Rightarrow> py_error + (pystr \<times> pystr \<times> int) list" where
  "print_stream_options video_streams audio_streams =
     (case video_rows 1 video_streams of
        Inl e \<Rightarrow> Inl e
      | Inr rows \<Rightarrow> Inr (rows @ map audio_row audio_streams))"

section \<open>Vocabulary of the statements\<close>

text \<open>
  The streams the first loop hands to the video branch (those with a video track, without
  the webm ones unless \<open>verbose\<close>), and those it appends to the audio list.
\<close>

definition video_candidate :: "bool \<Rightarrow> stream \<Rightarrow> bool" where
  "video_candidate verbose s = (includes_video_track s \<and> (verbose \<or> subtype s \<noteq> (lit ''webm'')))"

definition audio_only :: "stream \<Rightarrow> bool" where
  "audio_only s = (includes_audio_track s \<and> \<not> includes_video_track s)"

definition is_1080p :: "stream \<Rightarrow> bool" where
  "is_1080p s = (resolution s = Some (lit ''1080p''))"

text \<open>The video dictionary after the streams \<open>cs\<close> went through the video branch.\<close>

definition video_dict :: "stream list \<Rightarrow> (pystr option \<times> stream) list" where
  "video_dict cs = foldl (\<lambda>d s. video_step s d) [] cs"

definition last_option :: "'a list \<Rightarrow> 'a option" where
  "last_option xs = (case rev xs of [] \<Rightarrow> None | x # _ \<Rightarrow> Some x)"

text \<open>The key a sort-key function gives an element on which it does not raise.\<close>

definition key_val :: "('a \<Rightarrow> py_error + 'k) \<Rightarrow> 'a \<Rightarrow> 'k" where
  "key_val f x = (case f x of Inr k \<Rightarrow> k | Inl e \<Rightarrow> undefined)"

text \<open>
  The bitrate bucket of an audio stream (the integer \<^verbatim>\<open>bitrate\<close> of the dedup loop), the
  key of a bitrate in the dictionary \<^verbatim>\<open>audio_quality\<close> (what \<^verbatim>\<open>f"{bitrate}kbps"\<close> is
  when the conversion does not raise), and the invariant of the dictionary after the
  streams \<open>auds\<close> went through the loop.
\<close>

definition key_of :: "nat \<Rightarrow> pystr" where
  "key_of bitrate = str_nat bitrate @ lit ''kbps''"

definition bucket :: "stream \<Rightarrow> nat" where
  "bucket s = key_val bitrate_of s"

definition audio_inv :: "stream list \<Rightarrow> (pystr \<times> stream) list \<Rightarrow> bool" where
  "audio_inv auds d =
     (distinct (map fst d) \<and>
      (\<forall>k v. map_of d k = Some v \<longrightarrow>
         v \<in> set auds \<and> bitrate_of v = Inr (key_val bitrate_of v) \<and>
         k = key_of (key_val bitrate_of v) \<and>
         (\<forall>b\<in>set auds. bitrate_of b = bitrate_of v \<longrightarrow> filesize v \<le> filesize b)) \<and>
      (\<forall>s\<in>set auds. bitrate_of s = Inr (key_val bitrate_of s) \<and>
         key_of (key_val bitrate_of s) \<in> dom (map_of d)))"

section \<open>The session: \<^verbatim>\<open>download_video\<close>\<close>

subsection \<open>The world outside the script\<close>

text \<open>
  The download directory is a map from file names to what is stored under them: a
  complete file or a partial one.  What the collaborators do is an input of the model:
  a download writes its bytes to the name it is given and either completes or raises,
  leaving a partial file or nothing; the external tool writes its output to the output
  name it is given, exit status 0 meaning that the output is complete, and a run that
  fails may leave a partial output; the file explorer may fail to start.  What is raised
  is \<^verbatim>\<open>KeyboardInterrupt\<close> or an exception derived from \<^verbatim>\<open>Exception\<close>.  The flag of an
  aborted download, of a failed tool run and of an aborted tool run says whether a partial
  file is left under the name written to.
\<close>

datatype file_state = Complete | Partial

type_synonym files = "pystr \<rightharpoonup> file_state"

datatype raised = KeyboardInterrupt | Exception

datatype download_outcome = Downloaded | DownloadAborted raised bool

datatype tool_outcome = ToolExit int bool | ToolAborted raised bool

datatype explorer_outcome = Opened | ExplorerFailed raised

record environment =
  selected_download :: download_outcome
  audio_download :: download_outcome
  tool :: tool_outcome
  explorer :: explorer_outcome
  best_audio_track :: "stream option"

text \<open>How a block of the script ends: normally, by an exception, or by \<^verbatim>\<open>sys.exit\<close>.\<close>

datatype control = Normal | Raise raised | SysExit int

datatype message =
    InvalidNumber | NotANumber | CancelledAtPrompt
  | ErrorCombining | ErrorConverting
  | Completed pystr
  | DownloadCancelled | ErrorIncorrectLink

definition download_to :: "pystr \<Rightarrow> download_outcome \<Rightarrow> files \<Rightarrow> raised option \<times> files" where
  "download_to name outcome fs =
     (case outcome of
        Downloaded \<Rightarrow> (None, fs(name \<mapsto> Complete))
      | DownloadAborted r partial \<Rightarrow> (Some r, if partial then fs(name \<mapsto> Partial) else fs))"

definition run_tool :: "pystr \<Rightarrow> tool_outcome \<Rightarrow> files \<Rightarrow> (raised + int) \<times> files" where
  "run_tool output outcome fs =
     (case outcome of
        ToolExit rc leaves \<Rightarrow>
          (Inr rc, if rc = 0 then fs(output \<mapsto> Complete)
                   else if leaves then fs(output \<mapsto> Partial) else fs)
      | ToolAborted r leaves \<Rightarrow> (Inl r, if leaves then fs(output \<mapsto> Partial) else fs))"

definition open_file_explorer :: "explorer_outcome \<Rightarrow> control" where
  "open_file_explorer outcome = (case outcome of Opened \<Rightarrow> Normal | ExplorerFailed r \<Rightarrow> Raise r)"

text \<open>\<^verbatim>\<open>if os.path.exists(p): os.remove(p)\<close>, and \<^verbatim>\<open>os.remove(p)\<close> of a file that exists.\<close>

definition remove_file :: "pystr \<Rightarrow> files \<Rightarrow> files" where
  "remove_file name fs = fs(name := None)"

subsection \<open>The prompt\<close>

text \<open>
  What the user does at the prompt, one event for each call of \<^verbatim>\<open>input\<close>: a line, given
  by what \<^verbatim>\<open>int\<close> makes of it (\<open>None\<close> when it raises ValueError), or an interrupt.  When
  the list is used up the input has ended and \<^verbatim>\<open>input\<close> raises EOFError.
\<close>

datatype user_event = Answer "int option" | Interrupt

datatype prompt_result = Chosen nat | PromptCancelled | InputEnded

fun choose_format :: "nat \<Rightarrow> user_event list \<Rightarrow> prompt_result \<times> message list" where
  "choose_format n [] = (InputEnded, [])"
| "choose_format n (Interrupt # rest) = (PromptCancelled, [CancelledAtPrompt])"
| "choose_format n (Answer None # rest) =
     (case choose_format n rest of (r, ms) \<Rightarrow> (r, NotANumber # ms))"
| "choose_format n (Answer (Some choice) # rest) =
     (if 1 \<le> choice \<and> choice \<le> int n then (Chosen (nat (choice - 1)), [])
      else (case choose_format n rest of (r, ms) \<Rightarrow> (r, InvalidNumber # ms)))"

subsection \<open>File names\<close>

text \<open>\<^verbatim>\<open>f"{x}"\<close> of a value that is a string or \<^verbatim>\<open>None\<close>.\<close>

definition format_str :: "pystr option \<Rightarrow> pystr" where
  "format_str x = (case x of None \<Rightarrow> (lit ''None'') | Some s \<Rightarrow> s)"

definition video_filename :: "pystr \<Rightarrow> stream \<Rightarrow> pystr" where
  "video_filename safe_title s = safe_title @ (lit ''_'') @ format_str (resolution s) @ (lit ''.'') @ subtype s"

definition audio_filename :: "pystr \<Rightarrow> pystr \<Rightarrow> pystr" where
  "audio_filename safe_title sub = safe_title @ (lit ''_audio.'') @ sub"

definition video_temp :: "pystr \<Rightarrow> stream \<Rightarrow> pystr" where
  "video_temp safe_title s = safe_title @ (lit ''_video_temp.'') @ subtype s"

definition audio_temp :: "pystr \<Rightarrow> stream \<Rightarrow> pystr" where
  "audio_temp safe_title audio = safe_title @ (lit ''_audio_temp.'') @ subtype audio"

definition temp_name :: "pystr \<Rightarrow> stream \<Rightarrow> pystr" where
  "temp_name safe_title s = safe_title @ (lit ''_temp.'') @ subtype s"

subsection \<open>The three download paths\<close>

text \<open>
  The body of the \<^verbatim>\<open>try\<close> of the adaptive path: video download, audio download, the
  merge, and what follows the merge's exit status.
\<close>

definition adaptive_body ::
  "pystr \<Rightarrow> pystr \<Rightarrow> pystr \<Rightarrow> environment \<Rightarrow> files \<Rightarrow> control \<times> files \<times> message list" where
  "adaptive_body video_name audio_name output env fs =
     (case download_to video_name (selected_download env) fs of
        (Some r, fs1) \<Rightarrow> (Raise r, fs1, [])
      | (None, fs1) \<Rightarrow>
          (case download_to audio_name (audio_download env) fs1 of
             (Some r, fs2) \<Rightarrow> (Raise r, fs2, [])
           | (None, fs2) \<Rightarrow>
               (case run_tool output (tool env) fs2 of
                  (Inl r, fs3) \<Rightarrow> (Raise r, fs3, [])
                | (Inr result, fs3) \<Rightarrow>
                    if result = 0
                    then (open_file_explorer (explorer env), fs3, [Completed output])
                    else (SysExit 1, fs3, [ErrorCombining]))))"

text \<open>The \<^verbatim>\<open>try ... finally\<close>: both temporary files are removed however the body ended.\<close>

definition adaptive_path ::
  "pystr \<Rightarrow> stream \<Rightarrow> stream \<Rightarrow> environment \<Rightarrow> files \<Rightarrow> control \<times> files \<times> message list" where
  "adaptive_path safe_title selected audio env fs =
     (case adaptive_body (video_temp safe_title selected) (audio_temp safe_title audio)
             (video_filename safe_title selected) env fs of
        (c, fs', ms) \<Rightarrow>
          (c, remove_file (audio_temp safe_title audio)
                (remove_file (video_temp safe_title selected) fs'), ms))"

text \<open>
  The conversion path of a virtual entry: download of the original stream to the
  temporary name, conversion, and removal of the temporary file when the exit status is 0.
\<close>

definition convert_path ::
  "pystr \<Rightarrow> virtual_stream \<Rightarrow> environment \<Rightarrow> files \<Rightarrow> control \<times> files \<times> message list" where
  "convert_path safe_title selected env fs =
     (let full = audio_filename safe_title (vsubtype selected);
          temp = temp_name safe_title (original_stream selected)
      in case download_to temp (selected_download env) fs of
           (Some r, fs1) \<Rightarrow> (Raise r, fs1, [])
         | (None, fs1) \<Rightarrow>
             (case run_tool full (tool env) fs1 of
                (Inl r, fs2) \<Rightarrow> (Raise r, fs2, [])
              | (Inr result, fs2) \<Rightarrow>
                  if result = 0
                  then (open_file_explorer (explorer env), remove_file temp fs2, [Completed full])
                  else (SysExit 1, fs2, [ErrorConverting])))"

text \<open>The direct path: the stream is downloaded under the final file name.\<close>

definition direct_path ::
  "pystr \<Rightarrow> environment \<Rightarrow> files \<Rightarrow> control \<times> files \<times> message list" where
  "direct_path filename env fs =
     (case download_to filename (selected_download env) fs of
        (Some r, fs1) \<Rightarrow> (Raise r, fs1, [])
      | (None, fs1) \<Rightarrow> (open_file_explorer (explorer env), fs1, [Completed filename]))"

text \<open>
  From the selected entry to the end of the \<^verbatim>\<open>try\<close> of \<^verbatim>\<open>download_video\<close>.  A virtual
  entry is a \<^verbatim>\<open>dict\<close>: reading its attribute \<^verbatim>\<open>abr\<close> in verbose mode raises
  AttributeError; subscripting a stream object in normal mode raises TypeError; with no
  audio stream, \<^verbatim>\<open>first()\<close> is \<^verbatim>\<open>None\<close> and reading its attributes raises AttributeError.
\<close>

definition download_selected ::
  "pystr \<Rightarrow> bool \<Rightarrow> menu_item \<Rightarrow> environment \<Rightarrow> files \<Rightarrow> control \<times> files \<times> message list" where
  "download_selected safe_title verbose selected env fs =
     (case selected of
        Virtual v \<Rightarrow>
          if verbose then (Raise Exception, fs, [])
          else convert_path safe_title v env fs
      | Raw s \<Rightarrow>
          if includes_video_track s then
            (if \<not> is_progressive s then
               (case best_audio_track env of
                  None \<Rightarrow> (Raise Exception, fs, [])
                | Some audio \<Rightarrow> adaptive_path safe_title s audio env fs)
             else direct_path (video_filename safe_title s) env fs)
          else if verbose then direct_path (audio_filename safe_title (subtype s)) env fs
          else (Raise Exception, fs, []))"

text \<open>
  The handlers of the outer \<^verbatim>\<open>try\<close>: \<^verbatim>\<open>KeyboardInterrupt\<close> ends the process with status
  0, any other exception with status 1 and the message about an incorrect link;
  \<^verbatim>\<open>sys.exit\<close> passes through.  \<open>None\<close> is the normal return.
\<close>

definition outer_handlers :: "control \<times> files \<times> message list \<Rightarrow> int option \<times> files \<times> message list" where
  "outer_handlers r =
     (case r of
        (Normal, fs, ms) \<Rightarrow> (None, fs, ms)
      | (SysExit c, fs, ms) \<Rightarrow> (Some c, fs, ms)
      | (Raise KeyboardInterrupt, fs, ms) \<Rightarrow> (Some 0, fs, ms @ [DownloadCancelled])
      | (Raise Exception, fs, ms) \<Rightarrow> (Some 1, fs, ms @ [ErrorIncorrectLink]))"

text \<open>
  \<^verbatim>\<open>download_video\<close> once the video information is there: menu, prompt, download.  The
  result is the exit status (\<open>None\<close> for a normal return), the download directory and the
  messages printed.  The prompt only chooses a position of the menu
  (\<open>choose_format_bound\<close> below), so the entry read is in range.
\<close>

definition download_video ::
  "pystr \<Rightarrow> stream list \<Rightarrow> bool \<Rightarrow> user_event list \<Rightarrow> environment \<Rightarrow> files \<Rightarrow>
     int option \<times> files \<times> message list" where
  "download_video title streams verbose events env fs =
     (case organize_streams streams verbose of
        Inl e \<Rightarrow> outer_handlers (Raise Exception, fs, [])
      | Inr (video_streams, audio_streams) \<Rightarrow>
          (case print_stream_options video_streams audio_streams of
             Inl e \<Rightarrow> outer_handlers (Raise Exception, fs, [])
           | Inr rows \<Rightarrow>
               (let all_streams = map Raw video_streams @ audio_streams
                in case choose_format (length all_streams) events of
                     (PromptCancelled, ms) \<Rightarrow> (Some 0, fs, ms)
                   | (InputEnded, ms) \<Rightarrow> outer_handlers (Raise Exception, fs, ms)
                   | (Chosen i, ms) \<Rightarrow>
                       (case download_selected (clean_filename title) verbose (all_streams ! i) env fs of
                          (c, fs', ms') \<Rightarrow> outer_handlers (c, fs', ms @ ms')))))"

subsection \<open>Destination and temporary names of a selection\<close>

definition destination :: "pystr \<Rightarrow> menu_item \<Rightarrow> pystr" where
  "destination safe_title selected =
     (case selected of
        Virtual v \<Rightarrow> audio_filename safe_title (vsubtype v)
      | Raw s \<Rightarrow>
          if includes_video_track s then video_filename safe_title s
          else audio_filename safe_title (subtype s))"

definition temp_files :: "pystr \<Rightarrow> menu_item \<Rightarrow> environment \<Rightarrow> pystr list" where
  "temp_files safe_title selected env =
     (case selected of
        Virtual v \<Rightarrow> [temp_name safe_title (original_stream v)]
      | Raw s \<Rightarrow>
          if includes_video_track s \<and> \<not> is_progressive s then
            (case best_audio_track env of
               None \<Rightarrow> []
             | Some audio \<Rightarrow> [video_temp safe_title s, audio_temp safe_title audio])
          else [])"

text \<open>
  The path a selection takes through \<^verbatim>\<open>download_video\<close>: the direct download under the
  final name, the download of video and audio followed by the merge, the download of an
  audio stream followed by the conversion, or none (when reading the selected entry
  raises before anything is downloaded).
\<close>

datatype download_path = Direct | Remux | Conversion | NoDownload

definition path_of :: "bool \<Rightarrow> menu_item \<Rightarrow> environment \<Rightarrow> download_path" where
  "path_of verbose selected env =
     (case selected of
        Virtual v \<Rightarrow> if verbose then NoDownload else Conversion
      | Raw s \<Rightarrow>
          if includes_video_track s then
            (if is_progressive s then Direct
             else (case best_audio_track env of None \<Rightarrow> NoDownload | Some audio \<Rightarrow> Remux))
          else if verbose then Direct
          else NoDownload)"

text \<open>
  Whether the downloads that come before the tool run succeed, whether the tool run
  succeeds, and whether it fails or is interrupted after it wrote part of its output.
\<close>

definition inputs_downloaded :: "download_path \<Rightarrow> environment \<Rightarrow> bool" where
  "inputs_downloaded p env =
     (selected_download env = Downloaded \<and>
      (if p = Remux then audio_download env = Downloaded else True))"

definition tool_succeeds :: "tool_outcome \<Rightarrow> bool" where
  "tool_succeeds outcome =
     (case outcome of ToolExit rc leaves \<Rightarrow> rc = 0 | ToolAborted r leaves \<Rightarrow> False)"

definition tool_leaves_partial :: "tool_outcome \<Rightarrow> bool" where
  "tool_leaves_partial outcome =
     (case outcome of
        ToolExit rc leaves \<Rightarrow> rc \<noteq> 0 \<and> leaves
      | ToolAborted r leaves \<Rightarrow> leaves)"

text \<open>
  Whether the session writes a complete file under the destination name, and whether it
  writes a partial one there: the download itself on the direct path, the external tool
  on the other two.
\<close>

definition writes_complete :: "bool \<Rightarrow> menu_item \<Rightarrow> environment \<Rightarrow> bool" where
  "writes_complete verbose selected env =
     (case path_of verbose selected env of
        Direct \<Rightarrow> selected_download env = Downloaded
      | Remux \<Rightarrow> inputs_downloaded Remux env \<and> tool_succeeds (tool env)
      | Conversion \<Rightarrow> inputs_downloaded Conversion env \<and> tool_succeeds (tool env)
      | NoDownload \<Rightarrow> False)"

definition writes_partial :: "bool \<Rightarrow> menu_item \<Rightarrow> environment \<Rightarrow> bool" where
  "writes_partial verbose selected env =
     (case path_of verbose selected env of
        Direct \<Rightarrow>
          (case selected_download env of
             Downloaded \<Rightarrow> False
           | DownloadAborted r partial \<Rightarrow> partial)
      | Remux \<Rightarrow> inputs_downloaded Remux env \<and> tool_leaves_partial (tool env)
      | Conversion \<Rightarrow> inputs_downloaded Conversion env \<and> tool_leaves_partial (tool env)
      | NoDownload \<Rightarrow> False)"

section \<open>Progress of the external tool\<close>

text \<open>
  The monitoring loops of \<^verbatim>\<open>process_with_progress\<close> and \<^verbatim>\<open>process_audio\<close> read the
  tool's progress lines.  A line that starts with the counter's key (\<^verbatim>\<open>frame=\<close>, resp.
  \<^verbatim>\<open>out_time_ms=\<close>) is given by what \<^verbatim>\<open>int\<close> makes of its value (\<open>None\<close> when it raises
  ValueError, which the loop ignores); any other line is skipped.

  The percentage \<^verbatim>\<open>int((counter / total) * 100)\<close> is computed in floating point; it is
  the parameter \<open>scale\<close> of the model, \<open>None\<close> when the conversion raises OverflowError,
  which the loop does not catch.  \<open>known\<close> is the test \<^verbatim>\<open>total_frames > 0\<close>, resp.
  \<^verbatim>\<open>duration > 0\<close>.  The result lists the values given to the bar, in order, and says
  whether the loop ended normally, in which case the last value is the final 100.
\<close>

datatype progress_line = CounterLine "int option" | OtherLine

fun monitor :: "(int \<Rightarrow> int option) \<Rightarrow> bool \<Rightarrow> progress_line list \<Rightarrow> int list \<times> bool" where
  "monitor scale known [] = ([100], True)"
| "monitor scale known (OtherLine # ls) = monitor scale known ls"
| "monitor scale known (CounterLine None # ls) = monitor scale known ls"
| "monitor scale known (CounterLine (Some counter) # ls) =
     (if known then
        (case scale counter of
           None \<Rightarrow> ([], False)
         | Some p \<Rightarrow> (case monitor scale known ls of (shown, ended) \<Rightarrow> (min p 100 # shown, ended)))
      else monitor scale known ls)"

text \<open>The counters the loop reads from a list of lines.\<close>

fun counters :: "progress_line list \<Rightarrow> int list" where
  "counters [] = []"
| "counters (CounterLine (Some c) # ls) = c # counters ls"
| "counters (_ # ls) = counters ls"

text \<open>
  The tool reports running totals: the counter of a progress line (frames written, resp.
  microseconds of output written) is the sum of the amounts of progress made so far.
  \<open>cumulative start events\<close> lists the counter after each event of progress, \<open>start\<close>
  being the counter before the first one.
\<close>

fun cumulative :: "int \<Rightarrow> int list \<Rightarrow> int list" where
  "cumulative start [] = []"
| "cumulative start (d # ds) = (start + d) # cumulative (start + d) ds"

text \<open>
  With a total of 4 frames, \<^verbatim>\<open>int((counter / 4) * 100)\<close> is \<open>25 * counter\<close>: division by 4
  and the product are exact in double precision for counters below \<open>2^46\<close> in absolute
  value.
\<close>

definition quarter_scale :: "int \<Rightarrow> int option" where
  "quarter_scale counter = Some (25 * counter)"

section \<open>Concrete inputs\<close>

text \<open>
  Scenario A: two 1080p mp4 streams of 50 MB and 40 MB, then a 720p mp4 stream of 30 MB
  (sizes in bytes, 1 MB = 1024 * 1024 bytes).
\<close>

definition scenario_A_first :: stream where
  "scenario_A_first =
     \<lparr>itag = 1, includes_video_track = True, includes_audio_track = False, subtype = (lit ''mp4''),
      resolution = Some (lit ''1080p''), abr = None, filesize = 52428800, is_progressive = False\<rparr>"

definition scenario_A_second :: stream where
  "scenario_A_second =
     \<lparr>itag = 2, includes_video_track = True, includes_audio_track = False, subtype = (lit ''mp4''),
      resolution = Some (lit ''1080p''), abr = None, filesize = 41943040, is_progressive = False\<rparr>"

definition scenario_A_third :: stream where
  "scenario_A_third =
     \<lparr>itag = 3, includes_video_track = True, includes_audio_track = False, subtype = (lit ''mp4''),
      resolution = Some (lit ''720p''), abr = None, filesize = 31457280, is_progressive = False\<rparr>"

definition scenario_A :: "stream list" where
  "scenario_A = [scenario_A_first, scenario_A_second, scenario_A_third]"

text \<open>
  A list whose first video stream carries the dictionary's own key "1080p_hd" as its
  resolution, followed by a larger "1080p" stream.
\<close>

definition reserved_first :: stream where
  "reserved_first =
     \<lparr>itag = 1, includes_video_track = True, includes_audio_track = False, subtype = (lit ''mp4''),
      resolution = Some (lit ''1080p_hd''), abr = None, filesize = 52428800, is_progressive = False\<rparr>"

definition reserved_second :: stream where
  "reserved_second =
     \<lparr>itag = 2, includes_video_track = True, includes_audio_track = False, subtype = (lit ''mp4''),
      resolution = Some (lit ''1080p''), abr = None, filesize = 62914560, is_progressive = False\<rparr>"

text \<open>
  Scenario B: audio-only streams of 128 kbps and 5 MB, 160 kbps and 4 MB, 128 kbps and 6 MB;
  then an audio stream without bitrate label, one whose label has no digit, and one whose
  label has a fraction.
\<close>

definition scenario_B_first :: stream where
  "scenario_B_first =
     \<lparr>itag = 1, includes_video_track = False, includes_audio_track = True, subtype = (lit ''mp4''),
      resolution = None, abr = Some (lit ''128kbps''), filesize = 5242880, is_progressive = False\<rparr>"

definition scenario_B_second :: stream where
  "scenario_B_second =
     \<lparr>itag = 2, includes_video_track = False, includes_audio_track = True, subtype = (lit ''webm''),
      resolution = None, abr = Some (lit ''160kbps''), filesize = 4194304, is_progressive = False\<rparr>"

definition scenario_B_third :: stream where
  "scenario_B_third =
     \<lparr>itag = 3, includes_video_track = False, includes_audio_track = True, subtype = (lit ''webm''),
      resolution = None, abr = Some (lit ''128kbps''), filesize = 6291456, is_progressive = False\<rparr>"

definition scenario_B :: "stream list" where
  "scenario_B = [scenario_B_first, scenario_B_second, scenario_B_third]"

definition unlabelled_audio :: stream where
  "unlabelled_audio =
     \<lparr>itag = 4, includes_video_track = False, includes_audio_track = True, subtype = (lit ''webm''),
      resolution = None, abr = None, filesize = 3145728, is_progressive = False\<rparr>"

definition undigited_audio :: stream where
  "undigited_audio =
     \<lparr>itag = 5, includes_video_track = False, includes_audio_track = True, subtype = (lit ''webm''),
      resolution = None, abr = Some (lit ''unknown''), filesize = 3145728, is_progressive = False\<rparr>"

definition fractional_audio :: stream where
  "fractional_audio =
     \<lparr>itag = 6, includes_video_track = False, includes_audio_track = True, subtype = (lit ''webm''),
      resolution = None, abr = Some (lit ''128.5kbps''), filesize = 3145728, is_progressive = False\<rparr>"

text \<open>
  A 2160p stream, a progressive 720p stream, and three behaviours of the collaborators:
  the conversion or merge exits with status 1; everything succeeds; the download of the
  selected stream breaks off after writing part of the file.
\<close>

definition uhd_stream :: stream where
  "uhd_stream =
     \<lparr>itag = 0, includes_video_track = True, includes_audio_track = False, subtype = (lit ''mp4''),
      resolution = Some (lit ''2160p''), abr = None, filesize = 94371840, is_progressive = False\<rparr>"

definition progressive_stream :: stream where
  "progressive_stream =
     \<lparr>itag = 7, includes_video_track = True, includes_audio_track = True, subtype = (lit ''mp4''),
      resolution = Some (lit ''720p''), abr = Some (lit ''128kbps''), filesize = 31457280, is_progressive = True\<rparr>"

definition tool_fails :: environment where
  "tool_fails =
     \<lparr>selected_download = Downloaded, audio_download = Downloaded, tool = ToolExit 1 False,
      explorer = Opened, best_audio_track = Some scenario_B_second\<rparr>"

definition all_well :: environment where
  "all_well =
     \<lparr>selected_download = Downloaded, audio_download = Downloaded, tool = ToolExit 0 True,
      explorer = Opened, best_audio_track = Some scenario_B_second\<rparr>"

definition download_breaks :: environment where
  "download_breaks =
     \<lparr>selected_download = DownloadAborted Exception True, audio_download = Downloaded,
      tool = ToolExit 0 True, explorer = Opened, best_audio_track = None\<rparr>"

text \<open>
  A 1080p webm stream of 40 MB followed by a 1080p mp4 stream of 50 MB, and a video stream
  without resolution.
\<close>

definition webm_1080p :: stream where
  "webm_1080p =
     \<lparr>itag = 8, includes_video_track = True, includes_audio_track = False, subtype = (lit ''webm''),
      resolution = Some (lit ''1080p''), abr = None, filesize = 41943040, is_progressive = False\<rparr>"

definition mp4_1080p :: stream where
  "mp4_1080p =
     \<lparr>itag = 9, includes_video_track = True, includes_audio_track = False, subtype = (lit ''mp4''),
      resolution = Some (lit ''1080p''), abr = None, filesize = 52428800, is_progressive = False\<rparr>"

definition unresolved_video :: stream where
  "unresolved_video =
     \<lparr>itag = 10, includes_video_track = True, includes_audio_track = False, subtype = (lit ''mp4''),
      resolution = None, abr = None, filesize = 31457280, is_progressive = False\<rparr>"

text \<open>
  Audio-only streams of 96 kbps and 2 MB and of 256 kbps and 8 MB; one whose label has a
  superscript two (U+00B2) after the number, and one whose number 128 is written with
  fullwidth digits (U+FF11, U+FF12, U+FF18).
\<close>

definition low_audio :: stream where
  "low_audio =
     \<lparr>itag = 11, includes_video_track = False, includes_audio_track = True, subtype = (lit ''webm''),
      resolution = None, abr = Some (lit ''96kbps''), filesize = 2097152, is_progressive = False\<rparr>"

definition high_audio :: stream where
  "high_audio =
     \<lparr>itag = 12, includes_video_track = False, includes_audio_track = True, subtype = (lit ''webm''),
      resolution = None, abr = Some (lit ''256kbps''), filesize = 8388608, is_progressive = False\<rparr>"

definition superscript_audio :: stream where
  "superscript_audio =
     \<lparr>itag = 13, includes_video_track = False, includes_audio_track = True, subtype = (lit ''webm''),
      resolution = None, abr = Some (lit ''128'' @ [178] @ lit ''kbps''), filesize = 3145728,
      is_progressive = False\<rparr>"

definition fullwidth_audio :: stream where
  "fullwidth_audio =
     \<lparr>itag = 14, includes_video_track = False, includes_audio_track = True, subtype = (lit ''webm''),
      resolution = None, abr = Some ([65297, 65298, 65304] @ lit ''kbps''), filesize = 3145728,
      is_progressive = False\<rparr>"

text \<open>The merge exits with status 1 after it wrote part of its output.\<close>

definition merge_breaks :: environment where
  "merge_breaks =
     \<lparr>selected_download = Downloaded, audio_download = Downloaded, tool = ToolExit 1 True,
      explorer = Opened, best_audio_track = Some scenario_B_second\<rparr>"

text \<open>The download of the selected stream is cancelled after it wrote part of the file.\<close>

definition download_cancelled :: environment where
  "download_cancelled =
     \<lparr>selected_download = DownloadAborted KeyboardInterrupt True, audio_download = Downloaded,
      tool = ToolExit 0 True, explorer = Opened, best_audio_track = Some scenario_B_second\<rparr>"

section \<open>Properties of the file-name cleaning\<close>

text \<open>
  Claim C10.  Cleaning a file name twice gives what cleaning it once gives, and the
  cleaned name holds none of the characters \<^verbatim>\<open>< > : " / \ | ? *\<close>.
\<close>

theorem clean_filename_idempotent_and_safe:
  "clean_filename (clean_filename t) = clean_filename t \<and>
   set (clean_filename t) \<inter>
     set (lit [CHR ''<'', CHR ''>'', CHR '':'', CHR 0x22, CHR ''/'', CHR 0x5C, CHR ''|'', CHR ''?'', CHR ''*'']) = {}"
  by (auto simp: clean_filename_def illegal_chars_def)

section \<open>Literals\<close>

lemma lit_eq_iff [simp]: "lit a = lit b \<longleftrightarrow> a = b"
  by (simp add: lit_def inj_map_eq_map inj_of_char)

lemma lit_Nil [simp]: "lit [] = []"
  by (simp add: lit_def)

lemma lit_eq_Nil [simp]: "lit a = [] \<longleftrightarrow> a = []" "[] = lit a \<longleftrightarrow> a = []"
  by (auto simp: lit_def)

lemma lit_append: "lit a @ lit b = lit (a @ b)"
  by (simp add: lit_def)

section \<open>Sorting and lookup\<close>

lemma keys_of_total:
  "\<forall>x\<in>set xs. f x = Inr (g x) \<Longrightarrow> keys_of f xs = Inr (map (\<lambda>x. (g x, x)) xs)"
  by (induction xs) auto

lemma keys_of_Inr_defined:
  "keys_of f xs = Inr kxs \<Longrightarrow> x \<in> set xs \<Longrightarrow> \<exists>k. f x = Inr k"
  by (induction xs arbitrary: kxs) (auto split: sum.splits)

lemma insort_key_fst_pairs:
  "insort_key fst (g x, x) (map (\<lambda>y. (g y, y)) ys) = map (\<lambda>y. (g y, y)) (insort_key g x ys)"
  by (induction ys) auto

lemma sort_key_fst_pairs:
  "sort_key fst (map (\<lambda>y. (g y, y)) zs) = map (\<lambda>y. (g y, y)) (sort_key g zs)"
  by (induction zs) (auto simp: insort_key_fst_pairs)


lemma sorted_reverse_Inr:
  assumes "sorted_reverse f xs = Inr ys"
  shows "ys = rev (sort_key (key_val f) (rev xs))" and "\<forall>x\<in>set xs. f x = Inr (key_val f x)"
proof -
  from assms obtain kxs where k: "keys_of f xs = Inr kxs"
    by (auto simp: sorted_reverse_def split: sum.splits)
  show tot: "\<forall>x\<in>set xs. f x = Inr (key_val f x)"
  proof
    fix x assume "x \<in> set xs"
    with k obtain v where "f x = Inr v" using keys_of_Inr_defined by fastforce
    then show "f x = Inr (key_val f x)" by (simp add: key_val_def)
  qed
  then have "keys_of f xs = Inr (map (\<lambda>x. (key_val f x, x)) xs)" by (rule keys_of_total)
  with assms have "ys = map snd (rev (sort_key fst (rev (map (\<lambda>x. (key_val f x, x)) xs))))"
    by (simp add: sorted_reverse_def)
  also have "\<dots> = rev (sort_key (key_val f) (rev xs))"
    by (simp add: rev_map sort_key_fst_pairs comp_def)
  finally show "ys = rev (sort_key (key_val f) (rev xs))" .
qed

lemma sorted_reverse_props:
  assumes "sorted_reverse f xs = Inr ys"
  shows "set ys = set xs" and "distinct ys = distinct xs"
    and "sorted_wrt (\<lambda>a b. key_val f b \<le> key_val f a) ys"
proof -
  have ys: "ys = rev (sort_key (key_val f) (rev xs))" using assms by (rule sorted_reverse_Inr)
  show "set ys = set xs" by (simp add: ys)
  show "distinct ys = distinct xs" by (simp add: ys)
  have "sorted (map (key_val f) (sort_key (key_val f) (rev xs)))" by simp
  then have "sorted_wrt (\<lambda>a b. key_val f a \<le> key_val f b) (sort_key (key_val f) (rev xs))"
    by (simp add: sorted_map)
  then show "sorted_wrt (\<lambda>a b. key_val f b \<le> key_val f a) ys"
    by (simp add: ys sorted_wrt_rev)
qed

lemma lookup_all_Inr:
  "lookup_all d ks = Inr vs \<Longrightarrow> vs = map (\<lambda>k. the (map_of d k)) ks \<and> set ks \<subseteq> dom (map_of d)"
  by (induction ks arbitrary: vs) (auto split: option.splits sum.splits)

lemma lookup_all_total:
  "set ks \<subseteq> dom (map_of d) \<Longrightarrow> lookup_all d ks = Inr (map (\<lambda>k. the (map_of d k)) ks)"
  by (induction ks) (auto split: option.splits)

section \<open>The video dictionary\<close>

lemma better_audio_False: "better_audio s best = Inr False \<Longrightarrow> best \<noteq> None"
  by (cases best) (auto simp: better_audio_def)

lemma collect_streams_Inr:
  "collect_streams verbose ss (vd, auds, best) = Inr (vd', auds', best') \<Longrightarrow>
     vd' = foldl (\<lambda>d s. video_step s d) vd (filter (video_candidate verbose) ss) \<and>
     auds' = auds @ filter audio_only ss \<and>
     (best' = None \<longleftrightarrow> best = None \<and> filter audio_only ss = [])"
proof (induction ss arbitrary: vd auds best)
  case Nil
  then show ?case by simp
next
  case (Cons s ss)
  from Cons.prems obtain vd1 auds1 best1 where
    step: "collect_step verbose s (vd, auds, best) = Inr (vd1, auds1, best1)" and
    rest: "collect_streams verbose ss (vd1, auds1, best1) = Inr (vd', auds', best')"
    by (auto split: sum.splits)
  note ih = Cons.IH[OF rest]
  from step have
    "vd1 = (if video_candidate verbose s then video_step s vd else vd)"
    "auds1 = (if audio_only s then auds @ [s] else auds)"
    "best1 = None \<longleftrightarrow> best = None \<and> \<not> audio_only s"
    by (auto simp: video_candidate_def audio_only_def split: if_splits sum.splits
        dest: better_audio_False)
  with ih show ?case by auto
qed

lemma map_of_video_step:
  "map_of (video_step s d) =
     (if resolution s = Some (lit ''1080p'') then
        (case map_of d (Some (lit ''1080p_hd'')) of
           None \<Rightarrow> (map_of d)(Some (lit ''1080p_hd'') \<mapsto> s)
         | Some p \<Rightarrow> if filesize s < filesize p then (map_of d)(Some (lit ''1080p'') \<mapsto> s) else map_of d)
      else if map_of d (resolution s) = None then (map_of d)(resolution s \<mapsto> s)
      else map_of d)"
  by (simp add: video_step_def update_conv' split: option.splits)

lemma distinct_video_step:
  "distinct (map fst d) \<Longrightarrow> distinct (map fst (video_step s d))"
  by (simp add: video_step_def distinct_update split: option.splits)

lemma distinct_video_dict: "distinct (map fst (video_dict cs))"
  unfolding video_dict_def
  by (induction cs rule: rev_induct) (simp_all add: distinct_video_step)

lemma video_dict_snoc: "video_dict (cs @ [s]) = video_step s (video_dict cs)"
  by (simp add: video_dict_def)

lemma video_dict_resolution:
  "map_of (video_dict cs) k = Some v \<Longrightarrow>
     v \<in> set cs \<and> (resolution v = k \<or> (resolution v = Some (lit ''1080p'') \<and> k = Some (lit ''1080p_hd'')))"
proof (induction cs arbitrary: k v rule: rev_induct)
  case Nil
  then show ?case by (simp add: video_dict_def)
next
  case (snoc s cs)
  from snoc.prems show ?case
    unfolding video_dict_snoc map_of_video_step
    by (auto split: if_splits option.splits dest: snoc.IH)
qed

lemma last_option_simps [simp]:
  "last_option [] = None" "last_option (xs @ [x]) = Some x"
  by (simp_all add: last_option_def)

lemma find_snoc:
  "find P (xs @ [x]) = (case find P xs of None \<Rightarrow> (if P x then Some x else None) | Some y \<Rightarrow> Some y)"
  by (induction xs) auto

lemma find_None_filter: "find P xs = None \<Longrightarrow> filter (\<lambda>s. P s \<and> Q s) xs = []"
  by (induction xs) (auto split: if_splits)

lemma video_dict_primary:
  assumes "\<forall>s\<in>set cs. resolution s \<noteq> Some (lit ''1080p_hd'')"
  shows "map_of (video_dict cs) (Some (lit ''1080p_hd'')) = find is_1080p cs"
  using assms
proof (induction cs rule: rev_induct)
  case Nil
  then show ?case by (simp add: video_dict_def)
next
  case (snoc s cs)
  then have ih: "map_of (video_dict cs) (Some (lit ''1080p_hd'')) = find is_1080p cs"
    and s: "resolution s \<noteq> Some (lit ''1080p_hd'')" by auto
  show ?case
    unfolding video_dict_snoc map_of_video_step find_snoc
    using ih s by (auto simp: is_1080p_def split: option.splits)
qed

lemma video_dict_secondary:
  assumes "\<forall>s\<in>set cs. resolution s \<noteq> Some (lit ''1080p_hd'')"
  shows "map_of (video_dict cs) (Some (lit ''1080p'')) =
           (case find is_1080p cs of
              None \<Rightarrow> None
            | Some p \<Rightarrow> last_option (filter (\<lambda>s. is_1080p s \<and> filesize s < filesize p) cs))"
  using assms
proof (induction cs rule: rev_induct)
  case Nil
  then show ?case by (simp add: video_dict_def)
next
  case (snoc s cs)
  then have ih: "map_of (video_dict cs) (Some (lit ''1080p'')) =
           (case find is_1080p cs of
              None \<Rightarrow> None
            | Some p \<Rightarrow> last_option (filter (\<lambda>s. is_1080p s \<and> filesize s < filesize p) cs))"
    and cs: "\<forall>s\<in>set cs. resolution s \<noteq> Some (lit ''1080p_hd'')"
    and s: "resolution s \<noteq> Some (lit ''1080p_hd'')" by auto
  note prim = video_dict_primary[OF cs]
  have s1080: "is_1080p s \<longleftrightarrow> resolution s = Some (lit ''1080p'')" by (simp add: is_1080p_def)
  show ?case
  proof (cases "find is_1080p cs")
    case None
    then have "\<And>Q. filter (\<lambda>s. is_1080p s \<and> Q s) cs = []"
      by (rule find_None_filter)
    with None show ?thesis
      unfolding video_dict_snoc map_of_video_step find_snoc
      using ih s prim s1080 by (auto split: option.splits)
  next
    case (Some p)
    then show ?thesis
      unfolding video_dict_snoc map_of_video_step find_snoc
      using ih s prim s1080 by (auto split: option.splits)
  qed
qed

lemma find_dropWhile:
  "find P xs = (case dropWhile (\<lambda>x. \<not> P x) xs of [] \<Rightarrow> None | p # _ \<Rightarrow> Some p)"
  by (induction xs) auto

lemma filter_later_smaller:
  "dropWhile (\<lambda>s. \<not> is_1080p s) cs = p # post \<Longrightarrow>
     filter (\<lambda>s. is_1080p s \<and> filesize s < filesize p) cs =
     filter (\<lambda>s. is_1080p s \<and> filesize s < filesize p) post"
  by (induction cs) (auto split: if_splits)

lemma distinct_singleton: "distinct xs \<Longrightarrow> set xs = {a} \<Longrightarrow> xs = [a]"
proof -
  assume d: "distinct xs" and s: "set xs = {a}"
  then have "length xs = 1" by (simp add: distinct_card[symmetric])
  then obtain x where "xs = [x]" by (auto simp: length_Suc_conv)
  with s show "xs = [a]" by simp
qed

lemma video_sort_key_hd: "video_sort_key (Some (lit ''1080p_hd'')) = Inr (1080, True)"
  by code_simp

lemma video_sort_key_plain: "video_sort_key (Some (lit ''1080p'')) = Inr (1080, False)"
  by code_simp

lemma order_video_Inr:
  assumes "order_video d = Inr vs"
  shows "\<exists>ks. vs = map (\<lambda>k. the (map_of d k)) ks \<and> distinct ks = distinct (map fst d) \<and>
           set ks = dom (map_of d) \<and>
           sorted_wrt (\<lambda>a b. key_val video_sort_key b \<le> key_val video_sort_key a) ks \<and>
           (\<forall>k\<in>set ks. video_sort_key k = Inr (key_val video_sort_key k))"
proof -
  from assms obtain ks where s: "sorted_reverse video_sort_key (map fst d) = Inr ks"
    and l: "lookup_all d ks = Inr vs"
    by (auto simp: order_video_def split: sum.splits)
  from l have "vs = map (\<lambda>k. the (map_of d k)) ks" using lookup_all_Inr by blast
  moreover have "set ks = dom (map_of d)"
    using sorted_reverse_props(1)[OF s] by (simp add: dom_map_of_conv_image_fst)
  moreover have "\<forall>k\<in>set ks. video_sort_key k = Inr (key_val video_sort_key k)"
    using sorted_reverse_Inr(2)[OF s] sorted_reverse_props(1)[OF s] by simp
  ultimately show ?thesis
    using sorted_reverse_props(2,3)[OF s] by blast
qed

lemma length_distinct_subset:
  "distinct xs \<Longrightarrow> set xs \<subseteq> A \<Longrightarrow> finite A \<Longrightarrow> length xs \<le> card A"
  by (metis card_mono distinct_card)

lemma video_count:
  assumes "order_video (video_dict cs) = Inr vs"
  shows "length (filter (\<lambda>v. resolution v = r) vs) \<le> (if r = Some (lit ''1080p'') then 2 else 1)"
proof -
  let ?m = "map_of (video_dict cs)"
  from order_video_Inr[OF assms] obtain ks where
    vs: "vs = map (\<lambda>k. the (?m k)) ks" and d: "distinct ks" and dom: "set ks = dom ?m"
    by (auto simp: distinct_video_dict)
  let ?F = "filter (\<lambda>k. resolution (the (?m k)) = r) ks"
  have len: "length (filter (\<lambda>v. resolution v = r) vs) = length ?F"
    by (simp add: vs filter_map comp_def)
  have dF: "distinct ?F" using d by simp
  have sub: "set ?F \<subseteq> (if r = Some (lit ''1080p'') then {Some (lit ''1080p_hd''), Some (lit ''1080p'')} else {r})"
  proof
    fix k assume "k \<in> set ?F"
    then have "k \<in> dom ?m" and r: "resolution (the (?m k)) = r" using dom by auto
    then obtain v where v: "?m k = Some v" by auto
    from video_dict_resolution[OF v] r v
    show "k \<in> (if r = Some (lit ''1080p'') then {Some (lit ''1080p_hd''), Some (lit ''1080p'')} else {r})"
      by auto
  qed
  have "length ?F \<le> card (if r = Some (lit ''1080p'') then {Some (lit ''1080p_hd''), Some (lit ''1080p'')} else {r})"
    by (rule length_distinct_subset[OF dF sub]) simp
  also have "\<dots> \<le> (if r = Some (lit ''1080p'') then 2 else 1)" by (simp add: card_insert_if)
  finally show ?thesis using len by simp
qed

lemma sorted_pair:
  assumes "distinct xs" "set xs = {a, b}" "a \<noteq> b" "sorted_wrt R xs" "\<not> R b a"
  shows "xs = [a, b]"
proof -
  from assms(1,2,3) have "length xs = 2" by (simp add: distinct_card[symmetric])
  then obtain x y where xs: "xs = [x, y]"
    by (auto simp: numeral_2_eq_2 length_Suc_conv)
  with assms show ?thesis by (auto simp: doubleton_eq_iff)
qed

lemma video_1080p_entries:
  assumes ord: "order_video (video_dict cs) = Inr vs"
    and nc: "\<forall>s\<in>set cs. resolution s \<noteq> Some (lit ''1080p_hd'')"
  shows "case dropWhile (\<lambda>s. \<not> is_1080p s) cs of
           [] \<Rightarrow> filter is_1080p vs = []
         | p # post \<Rightarrow>
             filter is_1080p vs =
               p # (case last_option (filter (\<lambda>s. is_1080p s \<and> filesize s < filesize p) post) of
                      None \<Rightarrow> [] | Some q \<Rightarrow> [q])"
proof -
  let ?m = "map_of (video_dict cs)"
  let ?hd = "Some (lit ''1080p_hd'')" and ?pl = "Some (lit ''1080p'')"
  let ?g = "key_val video_sort_key"
  from order_video_Inr[OF ord] obtain ks where
    vs: "vs = map (\<lambda>k. the (?m k)) ks" and d: "distinct ks" and dom: "set ks = dom ?m"
    and srt: "sorted_wrt (\<lambda>a b. ?g b \<le> ?g a) ks"
    by (auto simp: distinct_video_dict)
  note prim = video_dict_primary[OF nc] and sec = video_dict_secondary[OF nc]
  let ?F = "filter (\<lambda>k. k = ?hd \<or> k = ?pl) ks"
  have "filter (\<lambda>k. is_1080p (the (?m k))) ks = ?F"
  proof (rule filter_cong[OF refl])
    fix k assume "k \<in> set ks"
    then obtain v where v: "?m k = Some v" using dom by auto
    show "is_1080p (the (?m k)) = (k = ?hd \<or> k = ?pl)"
    proof
      assume "is_1080p (the (?m k))"
      with video_dict_resolution[OF v] v show "k = ?hd \<or> k = ?pl"
        by (auto simp: is_1080p_def)
    next
      assume "k = ?hd \<or> k = ?pl"
      then show "is_1080p (the (?m k))"
      proof
        assume "k = ?hd"
        with v prim have "find is_1080p cs = Some v" by simp
        then show ?thesis using v by (auto simp: find_Some_iff)
      next
        assume "k = ?pl"
        with video_dict_resolution[OF v] v show ?thesis by (auto simp: is_1080p_def)
      qed
    qed
  qed
  then have out: "filter is_1080p vs = map (\<lambda>k. the (?m k)) ?F"
    by (simp add: vs filter_map comp_def)
  have dF: "distinct ?F" using d by simp
  have setF: "set ?F = {k. (k = ?hd \<or> k = ?pl) \<and> k \<in> dom ?m}" using dom by auto
  have sF: "sorted_wrt (\<lambda>a b. ?g b \<le> ?g a) ?F" using srt by (rule sorted_wrt_filter)
  have g: "?g ?hd = (1080, True)" "?g ?pl = (1080, False)"
    by (simp_all add: key_val_def video_sort_key_hd video_sort_key_plain)
  show ?thesis
  proof (cases "dropWhile (\<lambda>s. \<not> is_1080p s) cs")
    case Nil
    have "find is_1080p cs = None" unfolding find_dropWhile Nil by simp
    with prim sec have "?m ?hd = None" "?m ?pl = None" by simp_all
    then have "set ?F = {}" unfolding setF by auto
    then have "?F = []" by simp
    with out show ?thesis unfolding Nil by simp
  next
    case (Cons p post)
    have f: "find is_1080p cs = Some p" unfolding find_dropWhile Cons by simp
    with prim have mh: "?m ?hd = Some p" by simp
    from sec f filter_later_smaller[OF Cons]
    have mp: "?m ?pl = last_option (filter (\<lambda>s. is_1080p s \<and> filesize s < filesize p) post)"
      by simp
    show ?thesis
    proof (cases "?m ?pl")
      case None
      with mh have "set ?F = {?hd}" unfolding setF by auto
      with dF have "?F = [?hd]" by (rule distinct_singleton)
      with out mh mp None show ?thesis unfolding Cons by simp
    next
      case (Some q)
      with mh have "set ?F = {?hd, ?pl}" unfolding setF by auto
      with dF have "?F = [?hd, ?pl]"
        by (rule sorted_pair) (use sF g in \<open>auto simp: less_eq_prod_def\<close>)
      moreover from mp Some
      have "last_option (filter (\<lambda>s. is_1080p s \<and> filesize s < filesize p) post) = Some q"
        by simp
      ultimately show ?thesis unfolding Cons using out mh Some by simp
    qed
  qed
qed

lemma organize_streams_Inr:
  assumes "organize_streams streams verbose = Inr (vs, items)"
  shows "order_video (video_dict (filter (video_candidate verbose) streams)) = Inr vs \<and>
         (\<exists>ranked. rank_audio (filter audio_only streams) = Inr ranked \<and>
            items = (if filter audio_only streams = [] then map Raw ranked
                     else if verbose then map Raw ranked @ map Virtual (virtual_streams ranked)
                     else map Virtual (take 2 (virtual_streams ranked))))"
proof -
  from assms obtain vd auds best where
    c: "collect_streams verbose streams ([], [], None) = Inr (vd, auds, best)"
    by (auto simp: organize_streams_def split: sum.splits)
  from collect_streams_Inr[OF c] have
    vd: "vd = video_dict (filter (video_candidate verbose) streams)" and
    auds: "auds = filter audio_only streams" and
    best: "best = None \<longleftrightarrow> filter audio_only streams = []"
    by (simp_all add: video_dict_def)
  from assms c obtain ranked where
    o: "order_video vd = Inr vs" and r: "rank_audio auds = Inr ranked" and
    i: "items = (case best of None \<Rightarrow> map Raw ranked
                 | Some _ \<Rightarrow> if verbose then map Raw ranked @ map Virtual (virtual_streams ranked)
                             else map Virtual (take 2 (virtual_streams ranked)))"
    by (auto simp: organize_streams_def split: sum.splits)
  from i best have "items = (if filter audio_only streams = [] then map Raw ranked
                     else if verbose then map Raw ranked @ map Virtual (virtual_streams ranked)
                     else map Virtual (take 2 (virtual_streams ranked)))"
    by (cases best) auto
  with o r vd auds show ?thesis by auto
qed

section \<open>The audio ranking\<close>

lemma decimal_value_ascii: "d < 10 \<Longrightarrow> decimal_value (48 + d) = Some d"
  by (simp add: decimal_value_def decimal_zeros_def)

lemma isdigit_ascii: "d < 10 \<Longrightarrow> isdigit (48 + d)"
  by (simp add: isdigit_def decimal_value_ascii)

lemma decimal_value_le: "decimal_value c = Some d \<Longrightarrow> d \<le> 9"
  by (auto simp: decimal_value_def find_Some_iff split: option.splits)

lemma decimal_value_isdigit: "decimal_value c = Some d \<Longrightarrow> isdigit c"
  by (simp add: isdigit_def)

lemma those_map_Some:
  "\<forall>c\<in>set xs. f c = Some (g c) \<Longrightarrow> those (map f xs) = Some (map g xs)"
  by (induction xs) auto

lemma those_Some_all:
  "those os = Some vs \<Longrightarrow> length vs = length os \<and> (\<forall>i<length os. os ! i = Some (vs ! i))"
proof (induction os arbitrary: vs)
  case Nil
  then show ?case by simp
next
  case (Cons a os)
  then obtain v vs' where a: "a = Some v" and r: "those os = Some vs'" and vs: "vs = v # vs'"
    by (auto split: option.splits)
  from Cons.IH[OF r] a vs show ?case by (auto simp: nth_Cons split: nat.splits)
qed

lemma those_None_iff: "those os = None \<longleftrightarrow> None \<in> set os"
  by (induction os) (auto split: option.splits)

text \<open>The digits of \<open>str_nat n\<close> are ASCII digits and spell \<open>n\<close>.\<close>

lemma str_nat_ascii: "\<forall>c\<in>set (str_nat n). \<exists>d<10. c = 48 + d"
proof (induction n rule: str_nat.induct)
  case (1 n)
  show ?case
  proof (cases "n < 10")
    case True
    then show ?thesis by (subst str_nat.simps) simp
  next
    case False
    have "n mod 10 < 10" by simp
    with False 1 show ?thesis by (subst str_nat.simps) auto
  qed
qed

lemma str_nat_digits: "\<forall>c\<in>set (str_nat n). isdigit c"
  using str_nat_ascii[of n] by (auto simp: isdigit_ascii)

lemma str_nat_nonempty: "str_nat n \<noteq> []"
  by (subst str_nat.simps) simp

lemma str_nat_decimal: "those (map decimal_value (str_nat n)) = Some (map (\<lambda>c. c - 48) (str_nat n))"
proof (rule those_map_Some, rule ballI)
  fix c assume "c \<in> set (str_nat n)"
  with str_nat_ascii[of n] obtain d where "d < 10" "c = 48 + d" by blast
  then show "decimal_value c = Some (c - 48)" by (simp add: decimal_value_ascii)
qed

lemma str_nat_value: "foldl (\<lambda>a d. 10 * a + d) 0 (map (\<lambda>c. c - 48) (str_nat n)) = n"
proof (induction n rule: str_nat.induct)
  case (1 n)
  show ?case
  proof (cases "n < 10")
    case True
    then show ?thesis by (subst str_nat.simps) simp
  next
    case False
    with 1 show ?thesis by (subst str_nat.simps) simp
  qed
qed

lemma str_nat_inj: "str_nat n = str_nat m \<Longrightarrow> n = m"
  by (metis str_nat_value)

lemma str_nat_length: "0 < k \<Longrightarrow> n < 10 ^ k \<Longrightarrow> length (str_nat n) \<le> k"
proof (induction n arbitrary: k rule: str_nat.induct)
  case (1 n)
  show ?case
  proof (cases "n < 10")
    case True
    with 1(2) show ?thesis by (subst str_nat.simps) simp
  next
    case False
    have "k \<noteq> 0" using 1(2) by simp
    moreover have "k \<noteq> 1" using False 1(3) by auto
    ultimately have k: "1 < k" by simp
    then obtain j where j: "k = Suc j" "0 < j" by (cases k) auto
    with 1(3) have "n div 10 < 10 ^ j" by (simp add: less_mult_imp_div_less mult.commute)
    from 1(1)[OF False j(2) this] j False show ?thesis by (subst str_nat.simps) simp
  qed
qed

text \<open>A number that \<^verbatim>\<open>int\<close> returned has at most 4300 digits.\<close>

lemma foldl_digits_bound:
  "\<forall>d\<in>set ds. d \<le> 9 \<Longrightarrow> a < 10 ^ j \<Longrightarrow> foldl (\<lambda>n d. 10 * n + d) a ds < (10::nat) ^ (j + length ds)"
proof (induction ds arbitrary: a j)
  case Nil
  then show ?case by simp
next
  case (Cons d ds)
  then have "d \<le> 9" "Suc a \<le> 10 ^ j" by auto
  moreover have "\<And>X::nat. d \<le> 9 \<Longrightarrow> Suc a \<le> X \<Longrightarrow> 10 * a + d < 10 * X" by arith
  ultimately have "10 * a + d < 10 * 10 ^ j" by blast
  then have "10 * a + d < 10 ^ Suc j" by simp
  from Cons.IH[OF _ this] Cons.prems(1) show ?case by simp
qed

lemma int_of_digits_Inr:
  assumes "int_of_digits x = Inr n"
  obtains digits where "filter isdigit x \<noteq> []"
    and "those (map decimal_value (filter isdigit x)) = Some digits"
    and "length digits \<le> int_max_str_digits"
    and "n = foldl (\<lambda>n d. 10 * n + d) 0 digits"
  using assms
  by (auto simp: int_of_digits_def Let_def split: if_splits option.splits)

lemma int_of_digits_bound:
  assumes "int_of_digits x = Inr n"
  shows "n < 10 ^ int_max_str_digits"
proof -
  from assms obtain digits where t: "those (map decimal_value (filter isdigit x)) = Some digits"
    and l: "length digits \<le> int_max_str_digits"
    and n: "n = foldl (\<lambda>n d. 10 * n + d) 0 digits"
    by (rule int_of_digits_Inr)
  have "\<forall>d\<in>set digits. d \<le> 9"
  proof
    fix d assume "d \<in> set digits"
    then obtain i where i: "i < length digits" "digits ! i = d" by (auto simp: in_set_conv_nth)
    from those_Some_all[OF t] i
    have "map decimal_value (filter isdigit x) ! i = Some d" by auto
    with those_Some_all[OF t] i have "decimal_value (filter isdigit x ! i) = Some d" by simp
    then show "d \<le> 9" by (rule decimal_value_le)
  qed
  from foldl_digits_bound[OF this, of 0 0] n
  have "n < 10 ^ length digits" by simp
  also have "\<dots> \<le> 10 ^ int_max_str_digits" using l by (simp add: power_increasing)
  finally show ?thesis .
qed

lemma kbps_no_digit: "filter isdigit (lit ''kbps'') = []"
  by code_simp

lemma int_max_str_digits_pos: "0 < int_max_str_digits"
  by (simp add: int_max_str_digits_def)

lemma int_of_digits_key_of:
  assumes "n < 10 ^ int_max_str_digits"
  shows "int_of_digits (key_of n) = Inr n"
proof -
  have "filter isdigit (str_nat n) = str_nat n"
    using str_nat_digits by (simp add: filter_id_conv)
  then have f: "filter isdigit (key_of n) = str_nat n"
    by (simp add: key_of_def kbps_no_digit)
  have "length (str_nat n) \<le> int_max_str_digits"
    using int_max_str_digits_pos assms by (rule str_nat_length)
  then show ?thesis
    unfolding int_of_digits_def f Let_def
    by (simp add: str_nat_nonempty str_nat_decimal str_nat_value)
qed

lemma key_of_inj: "key_of n = key_of m \<Longrightarrow> n = m"
  by (simp add: key_of_def str_nat_inj)


lemma bitrate_of_bound: "bitrate_of s = Inr n \<Longrightarrow> n < 10 ^ int_max_str_digits"
  by (simp add: bitrate_of_def int_of_digits_bound)

text \<open>The bitrates of the dedup loop are within the limit of the conversion to a string.\<close>

lemma audio_key_Inr:
  assumes "n < 10 ^ int_max_str_digits"
  shows "audio_key n = Inr (key_of n)"
proof -
  have "length (str_nat n) \<le> int_max_str_digits"
    using int_max_str_digits_pos assms by (rule str_nat_length)
  then show ?thesis by (simp add: audio_key_def str_int_def key_of_def)
qed

lemma audio_step_eq:
  "audio_step s d =
     (case bitrate_of s of
        Inl e \<Rightarrow> Inl e
      | Inr bitrate \<Rightarrow>
          (case map_of d (key_of bitrate) of
             None \<Rightarrow> Inr (AList.update (key_of bitrate) s d)
           | Some old \<Rightarrow>
               if filesize s < filesize old
               then Inr (AList.update (key_of bitrate) s d)
               else Inr d))"
proof (cases "bitrate_of s")
  case (Inl e)
  then show ?thesis by (simp add: audio_step_def)
next
  case (Inr n)
  then have "audio_key n = Inr (key_of n)" by (intro audio_key_Inr bitrate_of_bound)
  with Inr show ?thesis by (simp add: audio_step_def)
qed

lemma key_of_128: "key_of 128 = (lit ''128kbps'')"
  by code_simp

lemma audio_dedup_snoc:
  "audio_dedup (xs @ [s]) d0 =
     (case audio_dedup xs d0 of Inl e \<Rightarrow> Inl e | Inr d \<Rightarrow> audio_step s d)"
  by (induction xs arbitrary: d0) (auto split: sum.splits)

lemma key_val_Inr: "f x = Inr k \<Longrightarrow> key_val f x = k"
  by (simp add: key_val_def)

lemma audio_step_inv:
  assumes inv: "audio_inv auds d" and step: "audio_step s d = Inr d'"
  shows "audio_inv (auds @ [s]) d'"
proof -
  from step obtain n where n: "bitrate_of s = Inr n"
    by (auto simp: audio_step_eq split: sum.splits)
  then have kv: "key_val bitrate_of s = n" by (rule key_val_Inr)
  let ?k = "key_of n"
  from inv have dist: "distinct (map fst d)"
    and vals: "\<And>k v. map_of d k = Some v \<Longrightarrow>
         v \<in> set auds \<and> bitrate_of v = Inr (key_val bitrate_of v) \<and>
         k = key_of (key_val bitrate_of v) \<and>
         (\<forall>b\<in>set auds. bitrate_of b = bitrate_of v \<longrightarrow> filesize v \<le> filesize b)"
    and keys: "\<And>b. b \<in> set auds \<Longrightarrow> bitrate_of b = Inr (key_val bitrate_of b) \<and>
         key_of (key_val bitrate_of b) \<in> dom (map_of d)"
    by (auto simp: audio_inv_def)
  have same: "\<And>v. bitrate_of v = Inr (key_val bitrate_of v) \<Longrightarrow>
      (key_of (key_val bitrate_of v) = ?k) = (bitrate_of v = bitrate_of s)"
    using n by (auto dest: key_of_inj)
  consider (new) "map_of d ?k = None" "d' = AList.update ?k s d"
    | (smaller) old where "map_of d ?k = Some old" "filesize s < filesize old" "d' = AList.update ?k s d"
    | (keep) old where "map_of d ?k = Some old" "\<not> filesize s < filesize old" "d' = d"
    using step n by (auto simp: audio_step_eq split: option.splits if_splits)
  then show ?thesis
  proof cases
    case new
    have none: "\<And>b. b \<in> set auds \<Longrightarrow> bitrate_of b \<noteq> bitrate_of s"
    proof
      fix b assume b: "b \<in> set auds" and e: "bitrate_of b = bitrate_of s"
      from keys[OF b] e n have "?k \<in> dom (map_of d)" by (simp add: key_val_def)
      with new(1) show False by auto
    qed
    show ?thesis
      unfolding audio_inv_def new(2)
    proof (intro conjI allI impI ballI)
      show "distinct (map fst (AList.update ?k s d))" using dist by (simp add: distinct_update)
    next
      fix k v assume m: "map_of (AList.update ?k s d) k = Some v"
      show "v \<in> set (auds @ [s])" using m vals by (auto simp: update_conv' split: if_splits)
      show "bitrate_of v = Inr (key_val bitrate_of v)"
        using m vals n kv by (auto simp: update_conv' split: if_splits)
      show "k = key_of (key_val bitrate_of v)"
        using m vals n kv by (auto simp: update_conv' split: if_splits)
      fix b assume b: "b \<in> set (auds @ [s])" and e: "bitrate_of b = bitrate_of v"
      show "filesize v \<le> filesize b"
      proof (cases "k = ?k")
        case True
        with m have "v = s" by (simp add: update_conv')
        with b e none show ?thesis by auto
      next
        case False
        with m have mv: "map_of d k = Some v" by (simp add: update_conv')
        from vals[OF mv] False same have "bitrate_of v \<noteq> bitrate_of s" by auto
        with b e vals[OF mv] show ?thesis by auto
      qed
    next
      fix b assume b: "b \<in> set (auds @ [s])"
      show "bitrate_of b = Inr (key_val bitrate_of b)" using b keys n kv by auto
      show "key_of (key_val bitrate_of b) \<in> dom (map_of (AList.update ?k s d))"
        using b keys kv by (auto simp: update_conv')
    qed
  next
    case smaller
    from vals[OF smaller(1)] same have old: "bitrate_of old = bitrate_of s"
      and oldmin: "\<forall>b\<in>set auds. bitrate_of b = bitrate_of old \<longrightarrow> filesize old \<le> filesize b"
      by auto
    show ?thesis
      unfolding audio_inv_def smaller(3)
    proof (intro conjI allI impI ballI)
      show "distinct (map fst (AList.update ?k s d))" using dist by (simp add: distinct_update)
    next
      fix k v assume m: "map_of (AList.update ?k s d) k = Some v"
      show "v \<in> set (auds @ [s])" using m vals by (auto simp: update_conv' split: if_splits)
      show "bitrate_of v = Inr (key_val bitrate_of v)"
        using m vals n kv by (auto simp: update_conv' split: if_splits)
      show "k = key_of (key_val bitrate_of v)"
        using m vals n kv by (auto simp: update_conv' split: if_splits)
      fix b assume b: "b \<in> set (auds @ [s])" and e: "bitrate_of b = bitrate_of v"
      show "filesize v \<le> filesize b"
      proof (cases "k = ?k")
        case True
        with m have "v = s" by (simp add: update_conv')
        with b e old oldmin smaller(2) show ?thesis by fastforce
      next
        case False
        with m have mv: "map_of d k = Some v" by (simp add: update_conv')
        from vals[OF mv] False same have "bitrate_of v \<noteq> bitrate_of s" by auto
        with b e vals[OF mv] show ?thesis by auto
      qed
    next
      fix b assume b: "b \<in> set (auds @ [s])"
      show "bitrate_of b = Inr (key_val bitrate_of b)" using b keys n kv by auto
      show "key_of (key_val bitrate_of b) \<in> dom (map_of (AList.update ?k s d))"
        using b keys kv by (auto simp: update_conv')
    qed
  next
    case keep
    from vals[OF keep(1)] same have old: "bitrate_of old = bitrate_of s" by auto
    show ?thesis
      unfolding audio_inv_def keep(3)
    proof (intro conjI allI impI ballI)
      show "distinct (map fst d)" by (rule dist)
    next
      fix k v assume m: "map_of d k = Some v"
      show "v \<in> set (auds @ [s])" using vals[OF m] by simp
      show "bitrate_of v = Inr (key_val bitrate_of v)" using vals[OF m] by simp
      show "k = key_of (key_val bitrate_of v)" using vals[OF m] by simp
      fix b assume b: "b \<in> set (auds @ [s])" and e: "bitrate_of b = bitrate_of v"
      show "filesize v \<le> filesize b"
      proof (cases "b = s")
        case True
        with e have "bitrate_of v = bitrate_of s" by simp
        with vals[OF m] same have "k = ?k" by auto
        with m keep(1) have "v = old" by simp
        with keep(2) True show ?thesis by simp
      next
        case False
        with b e vals[OF m] show ?thesis by auto
      qed
    next
      fix b assume b: "b \<in> set (auds @ [s])"
      show "bitrate_of b = Inr (key_val bitrate_of b)" using b keys n kv by auto
      show "key_of (key_val bitrate_of b) \<in> dom (map_of d)"
        using b keys kv keep(1) by auto
    qed
  qed
qed

lemma audio_dedup_inv: "audio_dedup auds [] = Inr d \<Longrightarrow> audio_inv auds d"
proof (induction auds arbitrary: d rule: rev_induct)
  case Nil
  then show ?case by (simp add: audio_inv_def)
next
  case (snoc s auds)
  from snoc.prems obtain d0 where "audio_dedup auds [] = Inr d0" "audio_step s d0 = Inr d"
    by (auto simp: audio_dedup_snoc split: sum.splits)
  with snoc.IH show ?case by (blast intro: audio_step_inv)
qed

lemma sorted_wrt_strict:
  fixes g :: "'a \<Rightarrow> nat"
  shows "sorted_wrt (\<lambda>a b. g b \<le> g a) ks \<Longrightarrow> distinct (map g ks) \<Longrightarrow> sorted_wrt (\<lambda>a b. g b < g a) ks"
  by (induction ks) (auto simp: order_less_le intro: rev_image_eqI)

lemma rank_audio_Inr:
  assumes "rank_audio auds = Inr ranked"
  obtains d where "audio_dedup auds [] = Inr d"
    and "\<forall>a\<in>set ranked. map_of d (key_of (bucket a)) = Some a"
    and "sorted_wrt (\<lambda>a b. bucket b < bucket a) ranked"
    and "\<forall>a\<in>set ranked. a \<in> set auds \<and>
              (\<forall>b\<in>set auds. bucket b = bucket a \<longrightarrow> filesize a \<le> filesize b)"
    and "\<forall>s\<in>set auds. bitrate_of s = Inr (bucket s) \<and> (\<exists>a\<in>set ranked. bucket a = bucket s)"
proof -
  let ?g = "key_val int_of_digits"
  from assms obtain d ks where d: "audio_dedup auds [] = Inr d"
    and s: "sorted_reverse int_of_digits (map fst d) = Inr ks"
    and l: "lookup_all d ks = Inr ranked"
    by (auto simp: rank_audio_def split: sum.splits)
  from audio_dedup_inv[OF d] have dist: "distinct (map fst d)"
    and vals: "\<And>k v. map_of d k = Some v \<Longrightarrow>
         v \<in> set auds \<and> bitrate_of v = Inr (bucket v) \<and> k = key_of (bucket v) \<and>
         (\<forall>b\<in>set auds. bitrate_of b = bitrate_of v \<longrightarrow> filesize v \<le> filesize b)"
    and keys: "\<And>b. b \<in> set auds \<Longrightarrow> bitrate_of b = Inr (bucket b) \<and>
         key_of (bucket b) \<in> dom (map_of d)"
    by (auto simp: audio_inv_def bucket_def)
  from l have ranked: "ranked = map (\<lambda>k. the (map_of d k)) ks" using lookup_all_Inr by blast
  have setks: "set ks = dom (map_of d)"
    using sorted_reverse_props(1)[OF s] by (simp add: dom_map_of_conv_image_fst)
  have dks: "distinct ks" using sorted_reverse_props(2)[OF s] dist by simp
  have srt: "sorted_wrt (\<lambda>a b. ?g b \<le> ?g a) ks" by (rule sorted_reverse_props(3)[OF s])
  have kv: "\<And>k. k \<in> set ks \<Longrightarrow>
      map_of d k = Some (the (map_of d k)) \<and> k = key_of (?g k) \<and>
      ?g k = bucket (the (map_of d k))"
  proof -
    fix k assume "k \<in> set ks"
    then obtain v where v: "map_of d k = Some v" using setks by auto
    from vals[OF v] have k: "k = key_of (bucket v)" by simp
    from vals[OF v] have "bitrate_of v = Inr (bucket v)" by simp
    then have "bucket v < 10 ^ int_max_str_digits" by (rule bitrate_of_bound)
    then have "int_of_digits (key_of (bucket v)) = Inr (bucket v)" by (rule int_of_digits_key_of)
    then have g: "?g (key_of (bucket v)) = bucket v" by (rule key_val_Inr)
    have "map_of d k = Some (the (map_of d k))" using v by simp
    moreover have "k = key_of (?g k)" using k g by metis
    moreover have "?g k = bucket (the (map_of d k))" using k g v by (metis option.sel)
    ultimately show "map_of d k = Some (the (map_of d k)) \<and> k = key_of (?g k) \<and>
      ?g k = bucket (the (map_of d k))" by blast
  qed
  have "inj_on ?g (set ks)"
  proof (rule inj_onI)
    fix a b assume "a \<in> set ks" "b \<in> set ks" "?g a = ?g b"
    then have "a = key_of (?g a)" "b = key_of (?g a)" using kv by metis+
    then show "a = b" by metis
  qed
  with dks have "distinct (map ?g ks)" by (simp add: distinct_map)
  with srt have strict: "sorted_wrt (\<lambda>a b. ?g b < ?g a) ks" by (rule sorted_wrt_strict)
  have "sorted_wrt (\<lambda>a b. bucket (the (map_of d b)) < bucket (the (map_of d a))) ks"
  proof (rule sorted_wrt_mono_rel[OF _ strict])
    fix a b assume "a \<in> set ks" "b \<in> set ks" "?g b < ?g a"
    then show "bucket (the (map_of d b)) < bucket (the (map_of d a))" using kv by metis
  qed
  then have r1: "sorted_wrt (\<lambda>a b. bucket b < bucket a) ranked"
    by (simp add: ranked sorted_wrt_map)
  have r4: "\<forall>a\<in>set ranked. map_of d (key_of (bucket a)) = Some a"
  proof
    fix a assume "a \<in> set ranked"
    then obtain k where k: "k \<in> set ks" and a: "a = the (map_of d k)" by (auto simp: ranked)
    from kv[OF k] have "map_of d k = Some a" "k = key_of (bucket a)" unfolding a by metis+
    then show "map_of d (key_of (bucket a)) = Some a" by metis
  qed
  have r2: "\<forall>a\<in>set ranked. a \<in> set auds \<and>
              (\<forall>b\<in>set auds. bucket b = bucket a \<longrightarrow> filesize a \<le> filesize b)"
  proof
    fix a assume "a \<in> set ranked"
    with r4 have m: "map_of d (key_of (bucket a)) = Some a" by simp
    from vals[OF m] keys show "a \<in> set auds \<and>
              (\<forall>b\<in>set auds. bucket b = bucket a \<longrightarrow> filesize a \<le> filesize b)"
      by auto
  qed
  have r3: "\<forall>s\<in>set auds. bitrate_of s = Inr (bucket s) \<and> (\<exists>a\<in>set ranked. bucket a = bucket s)"
  proof
    fix s assume s: "s \<in> set auds"
    from keys[OF s] obtain v where v: "map_of d (key_of (bucket s)) = Some v" by auto
    then have "key_of (bucket s) \<in> set ks" using setks by auto
    then have "the (map_of d (key_of (bucket s))) \<in> set ranked" unfolding ranked set_map by (rule imageI)
    then have "v \<in> set ranked" using v by simp
    moreover from vals[OF v] have "bucket v = bucket s" by (auto dest: key_of_inj)
    ultimately show "bitrate_of s = Inr (bucket s) \<and> (\<exists>a\<in>set ranked. bucket a = bucket s)"
      using keys[OF s] by auto
  qed
  from d r4 r1 r2 r3 show ?thesis by (rule that)
qed

lemma audio_step_total: "bitrate_of s = Inr n \<Longrightarrow> \<exists>d'. audio_step s d = Inr d'"
  by (auto simp: audio_step_eq split: option.splits)

lemma audio_dedup_total:
  "\<forall>s\<in>set auds. \<exists>n. bitrate_of s = Inr n \<Longrightarrow> \<exists>d. audio_dedup auds d0 = Inr d"
proof (induction auds arbitrary: d0)
  case Nil
  then show ?case by simp
next
  case (Cons s auds)
  then obtain n where "bitrate_of s = Inr n" by auto
  then obtain d' where "audio_step s d0 = Inr d'" using audio_step_total by blast
  with Cons show ?case by auto
qed

lemma rank_audio_total:
  assumes "\<forall>s\<in>set auds. \<exists>n. bitrate_of s = Inr n"
  shows "\<exists>ranked. rank_audio auds = Inr ranked"
proof -
  from audio_dedup_total[OF assms] obtain d where d: "audio_dedup auds [] = Inr d" by blast
  from audio_dedup_inv[OF d] have
    vals: "\<And>k v. map_of d k = Some v \<Longrightarrow>
             k = key_of (key_val bitrate_of v) \<and> bitrate_of v = Inr (key_val bitrate_of v)"
    by (auto simp: audio_inv_def)
  have "\<forall>k\<in>set (map fst d). int_of_digits k = Inr (key_val int_of_digits k)"
  proof
    fix k assume "k \<in> set (map fst d)"
    then have "k \<in> dom (map_of d)" by (simp add: dom_map_of_conv_image_fst)
    then obtain v where "map_of d k = Some v" by auto
    from vals[OF this] have k: "k = key_of (key_val bitrate_of v)"
      and b: "bitrate_of v = Inr (key_val bitrate_of v)" by simp_all
    from b have "key_val bitrate_of v < 10 ^ int_max_str_digits" by (rule bitrate_of_bound)
    then have "int_of_digits k = Inr (key_val bitrate_of v)"
      unfolding k by (rule int_of_digits_key_of)
    then show "int_of_digits k = Inr (key_val int_of_digits k)" by (simp add: key_val_def)
  qed
  then have "keys_of int_of_digits (map fst d) =
      Inr (map (\<lambda>x. (key_val int_of_digits x, x)) (map fst d))"
    by (rule keys_of_total)
  then obtain ks where s: "sorted_reverse int_of_digits (map fst d) = Inr ks"
    by (simp add: sorted_reverse_def)
  have "set ks \<subseteq> dom (map_of d)"
    using sorted_reverse_props(1)[OF s] by (simp add: dom_map_of_conv_image_fst)
  then have "lookup_all d ks = Inr (map (\<lambda>k. the (map_of d k)) ks)" by (rule lookup_all_total)
  with d s show ?thesis by (simp add: rank_audio_def)
qed

lemma bitrate_absent: "\<not> truthy (abr s) \<Longrightarrow> bitrate_of s = Inr 128"
proof -
  assume "\<not> truthy (abr s)"
  then have "bitrate_of s = int_of_digits (lit ''128'')"
    by (auto simp: truthy_def bitrate_of_def split: option.splits)
  also have "\<dots> = Inr 128" by code_simp
  finally show ?thesis .
qed

lemma bucket_Inr: "bitrate_of s = Inr n \<Longrightarrow> bucket s = n"
  by (simp add: bucket_def key_val_def)

lemma strict_desc_distinct:
  fixes xs :: "nat list"
  shows "sorted_wrt (\<lambda>x y. y < x) xs \<Longrightarrow> distinct xs"
  by (induction xs) auto

section \<open>When the menu is returned\<close>

text \<open>
  \<^verbatim>\<open>organize_streams\<close> returns a menu when every stream that reaches the video branch has
  a resolution from which \<^verbatim>\<open>int\<close> reads a number and every audio-only stream has a
  bitrate, that is, a label that is absent or empty or from which \<^verbatim>\<open>int\<close> reads a number
  (\<open>organize_streams_returns\<close>); for any other list it raises
  (\<open>organize_streams_labels\<close>).  \<^verbatim>\<open>int\<close> reads a number from a label when the label has
  a digit character, all its digit characters are decimal digits and there are at most
  4300 of them (\<open>int_of_digits_returns\<close>).
\<close>

lemma bitrate_of_label:
  "bitrate_of s = Inr n \<Longrightarrow> abr s = Some x \<Longrightarrow> x \<noteq> [] \<Longrightarrow> int_of_digits x = Inr n"
  by (simp add: bitrate_of_def)

lemma better_audio_total:
  assumes "\<exists>n. bitrate_of s = Inr n" and "\<forall>b. best = Some b \<longrightarrow> (\<exists>n. bitrate_of b = Inr n)"
  shows "\<exists>r. better_audio s best = Inr r"
proof (cases best)
  case None
  then show ?thesis by (auto simp: better_audio_def)
next
  case (Some b)
  from assms Some obtain n m where n: "bitrate_of s = Inr n" and m: "bitrate_of b = Inr m" by auto
  show ?thesis
  proof (cases "\<exists>x y. abr s = Some x \<and> abr b = Some y \<and> x \<noteq> [] \<and> y \<noteq> []")
    case True
    then obtain x y where xy: "abr s = Some x" "abr b = Some y" "x \<noteq> []" "y \<noteq> []" by blast
    from bitrate_of_label[OF n xy(1,3)] bitrate_of_label[OF m xy(2,4)] xy Some
    show ?thesis by (auto simp: better_audio_def)
  next
    case False
    with Some show ?thesis by (auto simp: better_audio_def split: option.splits)
  qed
qed

lemma collect_streams_total:
  assumes "\<forall>s\<in>set ss. audio_only s \<longrightarrow> (\<exists>n. bitrate_of s = Inr n)"
    and "\<forall>b. best = Some b \<longrightarrow> (\<exists>n. bitrate_of b = Inr n)"
  shows "\<exists>st. collect_streams verbose ss (vd, auds, best) = Inr st"
  using assms
proof (induction ss arbitrary: vd auds best)
  case Nil
  then show ?case by simp
next
  case (Cons s ss)
  show ?case
  proof (cases "audio_only s")
    case False
    then have "collect_step verbose s (vd, auds, best) = Inr (vd, auds, best) \<or>
               collect_step verbose s (vd, auds, best) = Inr (video_step s vd, auds, best)"
      by (auto simp: audio_only_def)
    with Cons.IH[of best] Cons.prems show ?thesis by auto
  next
    case True
    with Cons.prems have b: "\<exists>n. bitrate_of s = Inr n" by simp
    from better_audio_total[OF b Cons.prems(2)] obtain r where r: "better_audio s best = Inr r"
      by blast
    with True have step: "collect_step verbose s (vd, auds, best) =
        Inr (vd, auds @ [s], if r then Some s else best)"
      by (simp add: audio_only_def)
    have "\<forall>b'. (if r then Some s else best) = Some b' \<longrightarrow> (\<exists>n. bitrate_of b' = Inr n)"
      using b Cons.prems(2) by auto
    from Cons.IH[OF _ this] Cons.prems(1) step show ?thesis by simp
  qed
qed

lemma order_video_total:
  assumes "\<forall>s\<in>set cs. \<exists>x n. resolution s = Some x \<and> int_of_digits x = Inr n"
  shows "\<exists>vs. order_video (video_dict cs) = Inr vs"
proof -
  let ?d = "video_dict cs"
  have "\<forall>k\<in>set (map fst ?d). video_sort_key k = Inr (key_val video_sort_key k)"
  proof
    fix k assume "k \<in> set (map fst ?d)"
    then have "k \<in> dom (map_of ?d)" by (simp add: dom_map_of_conv_image_fst)
    then obtain v where v: "map_of ?d k = Some v" by auto
    from video_dict_resolution[OF v] have "v \<in> set cs"
      and k: "resolution v = k \<or> k = Some (lit ''1080p_hd'')" by auto
    with assms obtain x n where x: "resolution v = Some x" "int_of_digits x = Inr n" by blast
    from k have "\<exists>key. video_sort_key k = Inr key"
    proof
      assume "resolution v = k"
      with x show ?thesis by (auto simp: video_sort_key_def)
    next
      assume "k = Some (lit ''1080p_hd'')"
      then show ?thesis by (auto simp: video_sort_key_hd)
    qed
    then show "video_sort_key k = Inr (key_val video_sort_key k)" by (auto simp: key_val_def)
  qed
  then have "keys_of video_sort_key (map fst ?d) =
      Inr (map (\<lambda>x. (key_val video_sort_key x, x)) (map fst ?d))"
    by (rule keys_of_total)
  then obtain ks where s: "sorted_reverse video_sort_key (map fst ?d) = Inr ks"
    by (simp add: sorted_reverse_def)
  have "set ks \<subseteq> dom (map_of ?d)"
    using sorted_reverse_props(1)[OF s] by (simp add: dom_map_of_conv_image_fst)
  then have "lookup_all ?d ks = Inr (map (\<lambda>k. the (map_of ?d k)) ks)" by (rule lookup_all_total)
  with s show ?thesis by (simp add: order_video_def)
qed

lemma organize_streams_returns:
  assumes "\<forall>s\<in>set streams. video_candidate verbose s \<longrightarrow>
             (\<exists>x n. resolution s = Some x \<and> int_of_digits x = Inr n)"
    and "\<forall>s\<in>set streams. audio_only s \<longrightarrow> (\<exists>n. bitrate_of s = Inr n)"
  shows "\<exists>vs items. organize_streams streams verbose = Inr (vs, items)"
proof -
  from collect_streams_total[OF assms(2), of None verbose "[]" "[]"]
  obtain vd auds best where c: "collect_streams verbose streams ([], [], None) = Inr (vd, auds, best)"
    by (metis option.distinct(1) prod_cases3)
  from collect_streams_Inr[OF c] have
    vd: "vd = video_dict (filter (video_candidate verbose) streams)" and
    auds: "auds = filter audio_only streams"
    by (simp_all add: video_dict_def)
  from assms(1) have "\<forall>s\<in>set (filter (video_candidate verbose) streams).
      \<exists>x n. resolution s = Some x \<and> int_of_digits x = Inr n" by simp
  from order_video_total[OF this] vd obtain vs where o: "order_video vd = Inr vs" by blast
  from assms(2) have "\<forall>s\<in>set auds. \<exists>n. bitrate_of s = Inr n" by (simp add: auds)
  from rank_audio_total[OF this] obtain ranked where r: "rank_audio auds = Inr ranked" by blast
  from c o r show ?thesis by (simp add: organize_streams_def)
qed

lemma video_dict_keys:
  "s \<in> set cs \<Longrightarrow>
     resolution s = Some (lit ''1080p'') \<or> resolution s \<in> dom (map_of (video_dict cs))"
proof (induction cs rule: rev_induct)
  case Nil
  then show ?case by simp
next
  case (snoc c cs)
  have grow: "dom (map_of (video_dict cs)) \<subseteq> dom (map_of (video_dict (cs @ [c])))"
    unfolding video_dict_snoc map_of_video_step by (auto split: option.splits)
  show ?case
  proof (cases "s = c")
    case True
    then show ?thesis
      unfolding video_dict_snoc map_of_video_step by (auto split: option.splits)
  next
    case False
    with snoc have "resolution s = Some (lit ''1080p'') \<or> resolution s \<in> dom (map_of (video_dict cs))"
      by simp
    with grow show ?thesis by blast
  qed
qed

lemma video_sort_key_Inr:
  "video_sort_key k = Inr key \<Longrightarrow> \<exists>x n. k = Some x \<and> int_of_digits x = Inr n"
  by (auto simp: video_sort_key_def split: option.splits sum.splits)

lemma int_of_digits_1080p: "int_of_digits (lit ''1080p'') = Inr 1080"
  by code_simp

lemma organize_streams_labels:
  assumes "organize_streams streams verbose = Inr (vs, items)"
  shows "(\<forall>s\<in>set streams. video_candidate verbose s \<longrightarrow>
            (\<exists>x n. resolution s = Some x \<and> int_of_digits x = Inr n)) \<and>
         (\<forall>s\<in>set streams. audio_only s \<longrightarrow> (\<exists>n. bitrate_of s = Inr n))"
proof (intro conjI ballI impI)
  fix s assume s: "s \<in> set streams" "video_candidate verbose s"
  let ?cs = "filter (video_candidate verbose) streams"
  from organize_streams_Inr[OF assms] have o: "order_video (video_dict ?cs) = Inr vs" by simp
  from order_video_Inr[OF o] obtain ks where
    dom: "set ks = dom (map_of (video_dict ?cs))" and
    keys: "\<forall>k\<in>set ks. video_sort_key k = Inr (key_val video_sort_key k)" by blast
  from s have "s \<in> set ?cs" by simp
  from video_dict_keys[OF this] show "\<exists>x n. resolution s = Some x \<and> int_of_digits x = Inr n"
  proof
    assume "resolution s = Some (lit ''1080p'')"
    then show ?thesis using int_of_digits_1080p by blast
  next
    assume "resolution s \<in> dom (map_of (video_dict ?cs))"
    with dom keys have "video_sort_key (resolution s) = Inr (key_val video_sort_key (resolution s))"
      by blast
    from video_sort_key_Inr[OF this] show ?thesis by simp
  qed
next
  fix s assume s: "s \<in> set streams" "audio_only s"
  from organize_streams_Inr[OF assms] obtain ranked where
    r: "rank_audio (filter audio_only streams) = Inr ranked" by blast
  from r obtain d where
    "\<forall>s\<in>set (filter audio_only streams). bitrate_of s = Inr (bucket s) \<and>
        (\<exists>a\<in>set ranked. bucket a = bucket s)"
    by (rule rank_audio_Inr)
  with s show "\<exists>n. bitrate_of s = Inr n" by auto
qed

section \<open>The video menu\<close>

lemma int_of_digits_720p: "int_of_digits (lit ''720p'') = Inr 720"
  by code_simp

lemma scenario_A_menu: "organize_streams scenario_A False = Inr (scenario_A, [])"
  by code_simp

lemma scenario_A_rows:
  "print_stream_options scenario_A [] =
     Inr [((lit ''1080p+''), (lit ''mp4''), 52428800), ((lit ''1080p''), (lit ''mp4''), 41943040),
          ((lit ''720p''), (lit ''mp4''), 31457280)]"
  by code_simp

lemma scenario_A_reordered:
  "organize_streams [scenario_A_third, scenario_A_first, scenario_A_second] False =
     Inr (scenario_A, [])"
  by code_simp

text \<open>
  Claim C1, as amended.  Take a stream list on which \<^verbatim>\<open>organize_streams\<close> does not raise
  (every stream that passes the container filter has a resolution from which a number can
  be read, every audio-only stream a bitrate, see above) and in which no stream that passes
  the filter has the resolution "1080p_hd", the key under which the dictionary keeps the
  primary 1080p entry.  Then a menu is returned; its video list has at most one entry of
  each resolution other than "1080p" and at most two of "1080p"; its 1080p entries are, in
  this order, the first "1080p" stream that passes the filter (the primary) and, if there
  is one, the last later "1080p" stream that passes the filter and whose file is smaller
  than the primary's (the secondary).  For Scenario A the function returns the three
  streams in their order and the menu prints "1080p+" with 50 MB, "1080p" with 40 MB and
  "720p" with 30 MB; it returns them in the same order when the 720p stream comes first
  in the input.
\<close>

theorem organize_streams_video_entries:
  assumes "\<forall>s\<in>set streams. video_candidate verbose s \<longrightarrow>
             (\<exists>x n. resolution s = Some x \<and> int_of_digits x = Inr n)"
    and "\<forall>s\<in>set streams. audio_only s \<longrightarrow> (\<exists>n. bitrate_of s = Inr n)"
    and "\<forall>s\<in>set streams. video_candidate verbose s \<longrightarrow> resolution s \<noteq> Some (lit ''1080p_hd'')"
  shows "(\<exists>vs items. organize_streams streams verbose = Inr (vs, items) \<and>
            (\<forall>r. length (filter (\<lambda>v. resolution v = r) vs) \<le> (if r = Some (lit ''1080p'') then 2 else 1)) \<and>
            (case dropWhile (\<lambda>s. \<not> is_1080p s) (filter (video_candidate verbose) streams) of
               [] \<Rightarrow> filter is_1080p vs = []
             | p # post \<Rightarrow>
                 filter is_1080p vs =
                   p # (case last_option (filter (\<lambda>s. is_1080p s \<and> filesize s < filesize p) post) of
                          None \<Rightarrow> [] | Some q \<Rightarrow> [q]))) \<and>
         organize_streams scenario_A False = Inr (scenario_A, []) \<and>
         print_stream_options scenario_A [] =
           Inr [((lit ''1080p+''), (lit ''mp4''), 52428800), ((lit ''1080p''), (lit ''mp4''), 41943040),
                ((lit ''720p''), (lit ''mp4''), 31457280)] \<and>
         organize_streams [scenario_A_third, scenario_A_first, scenario_A_second] False =
           Inr (scenario_A, [])"
proof -
  from organize_streams_returns[OF assms(1,2)] obtain vs items where
    r: "organize_streams streams verbose = Inr (vs, items)" by blast
  from organize_streams_Inr[OF r]
  have o: "order_video (video_dict (filter (video_candidate verbose) streams)) = Inr vs" by simp
  have nc: "\<forall>s\<in>set (filter (video_candidate verbose) streams). resolution s \<noteq> Some (lit ''1080p_hd'')"
    using assms(3) by simp
  have "\<forall>r. length (filter (\<lambda>v. resolution v = r) vs) \<le> (if r = Some (lit ''1080p'') then 2 else 1)"
    using video_count[OF o] by blast
  with r video_1080p_entries[OF o nc] show ?thesis
    using scenario_A_menu scenario_A_rows scenario_A_reordered by blast
qed

text \<open>The theorem at Scenario A, whose streams satisfy the three hypotheses.\<close>

theorem organize_streams_video_entries_witness:
  "organize_streams scenario_A False = Inr (scenario_A, []) \<and>
   filter is_1080p scenario_A = [scenario_A_first, scenario_A_second] \<and>
   length (filter (\<lambda>v. resolution v = Some (lit ''720p'')) scenario_A) \<le> 1"
proof -
  have h1: "\<forall>s\<in>set scenario_A. video_candidate False s \<longrightarrow>
             (\<exists>x n. resolution s = Some x \<and> int_of_digits x = Inr n)"
    using int_of_digits_1080p int_of_digits_720p
    by (simp add: scenario_A_def scenario_A_first_def scenario_A_second_def scenario_A_third_def)
  have h2: "\<forall>s\<in>set scenario_A. audio_only s \<longrightarrow> (\<exists>n. bitrate_of s = Inr n)"
    by (simp add: scenario_A_def scenario_A_first_def scenario_A_second_def scenario_A_third_def
        audio_only_def)
  have h3: "\<forall>s\<in>set scenario_A. video_candidate False s \<longrightarrow> resolution s \<noteq> Some (lit ''1080p_hd'')"
    by (simp add: scenario_A_def scenario_A_first_def scenario_A_second_def scenario_A_third_def)
  have f: "filter is_1080p scenario_A = [scenario_A_first, scenario_A_second]"
    by (simp add: scenario_A_def scenario_A_first_def scenario_A_second_def scenario_A_third_def
        is_1080p_def)
  from organize_streams_video_entries[OF h1 h2 h3] obtain vs items where
    r: "organize_streams scenario_A False = Inr (vs, items)" and
    c: "\<forall>r. length (filter (\<lambda>v. resolution v = r) vs) \<le> (if r = Some (lit ''1080p'') then 2 else 1)"
    by blast
  from r scenario_A_menu have "vs = scenario_A" by simp
  with c[rule_format, of "Some (lit ''720p'')"]
  have "length (filter (\<lambda>v. resolution v = Some (lit ''720p'')) scenario_A) \<le> 1" by simp
  with scenario_A_menu f show ?thesis by blast
qed

text \<open>
  Claim C1 does not hold for every descriptor list.  In a session without the webm
  formats a webm stream does not pass the container filter: when the first 1080p stream of
  the list is a webm stream it is not in the menu, and the 1080p mp4 stream that follows
  it is the one entry of the menu although its file is larger.  A video stream without
  resolution makes the function raise TypeError, and an audio stream whose label has no
  digit makes it raise ValueError, also when the video streams are those of Scenario A:
  no menu is produced.
\<close>

theorem filtered_first_1080p_counterexample:
  "organize_streams [webm_1080p, mp4_1080p] False = Inr ([mp4_1080p], []) \<and>
   includes_video_track webm_1080p \<and> is_1080p webm_1080p \<and> is_1080p mp4_1080p \<and>
   filesize webm_1080p < filesize mp4_1080p \<and>
   organize_streams [webm_1080p, mp4_1080p] True = Inr ([webm_1080p], []) \<and>
   organize_streams [unresolved_video] False = Inl TypeError \<and>
   organize_streams [unresolved_video] True = Inl TypeError \<and>
   organize_streams (scenario_A @ [undigited_audio]) False = Inl ValueError"
  by code_simp

text \<open>
  Why the key "1080p_hd" is left out of the theorem: a stream that carries this key as its
  resolution takes the place of the primary, and a "1080p" stream that follows it and is
  not smaller is dropped.
\<close>

lemma reserved_key_collision:
  "organize_streams [reserved_first, reserved_second] False = Inr ([reserved_first], []) \<and>
   filter (video_candidate False) [reserved_first, reserved_second] = [reserved_first, reserved_second] \<and>
   \<not> is_1080p reserved_first \<and> is_1080p reserved_second \<and>
   filter is_1080p [reserved_first] = []"
  by code_simp

subsection \<open>The printed quality column\<close>

lemma video_rows_unflagged:
  "1 < i \<Longrightarrow> video_rows i vs = Inr rows \<Longrightarrow> map (\<lambda>r. Some (fst r)) rows = map resolution vs"
proof (induction vs arbitrary: i rows)
  case Nil
  then show ?case by simp
next
  case (Cons s vs)
  from Cons.prems obtain q rest where q: "resolution s = Some q"
    and rest: "video_rows (i + 1) vs = Inr rest"
    and rows: "rows = (q, subtype s, filesize s) # rest"
    by (auto split: option.splits sum.splits)
  from Cons.IH[OF _ rest] Cons.prems(1) have "map (\<lambda>r. Some (fst r)) rest = map resolution vs" by simp
  with q rows show ?case by simp
qed

text \<open>
  Claim C7, evaluated where it fails.  With a 2160p stream before the two 1080p streams of
  Scenario A, the menu keeps the order 2160p, primary 1080p, secondary 1080p, and prints
  both 1080p entries as "1080p": the "+" is given to entry number 1 only, and the primary
  is entry number 2.
\<close>

theorem plus_flag_needs_first_place:
  "organize_streams [uhd_stream, scenario_A_first, scenario_A_second] False =
     Inr ([uhd_stream, scenario_A_first, scenario_A_second], []) \<and>
   print_stream_options [uhd_stream, scenario_A_first, scenario_A_second] [] =
     Inr [((lit ''2160p''), (lit ''mp4''), 94371840), ((lit ''1080p''), (lit ''mp4''), 52428800),
          ((lit ''1080p''), (lit ''mp4''), 41943040)]"
  by code_simp

section \<open>The audio menu\<close>

lemma int_of_digits_error: "int_of_digits x = Inl e \<Longrightarrow> e = ValueError"
  by (auto simp: int_of_digits_def Let_def split: if_splits option.splits)

lemma bitrate_of_error: "bitrate_of s = Inl e \<Longrightarrow> e = ValueError"
  unfolding bitrate_of_def by (rule int_of_digits_error)

lemma audio_step_error: "audio_step s d = Inl e \<Longrightarrow> e = ValueError"
  by (auto simp: audio_step_eq split: sum.splits option.splits if_splits dest: bitrate_of_error)

lemma audio_dedup_error: "audio_dedup auds d = Inl e \<Longrightarrow> e = ValueError"
  by (induction auds arbitrary: d) (auto split: sum.splits dest: audio_step_error)

lemma rank_audio_raises:
  assumes "\<not> (\<forall>s\<in>set auds. \<exists>n. bitrate_of s = Inr n)"
  shows "rank_audio auds = Inl ValueError"
proof (cases "audio_dedup auds []")
  case (Inl e)
  then have "e = ValueError" by (rule audio_dedup_error)
  with Inl show ?thesis by (simp add: rank_audio_def)
next
  case (Inr d)
  from audio_dedup_inv[OF Inr] have "\<forall>s\<in>set auds. bitrate_of s = Inr (key_val bitrate_of s)"
    by (simp add: audio_inv_def)
  with assms show ?thesis by blast
qed

lemma int_of_digits_returns:
  "(\<exists>n. int_of_digits x = Inr n) \<longleftrightarrow>
     (filter isdigit x \<noteq> [] \<and> (\<forall>c\<in>set x. isdigit c \<longrightarrow> decimal_value c \<noteq> None) \<and>
      length (filter isdigit x) \<le> 4300)"
proof -
  let ?ds = "filter isdigit x"
  have n: "those (map decimal_value ?ds) = None \<longleftrightarrow> (\<exists>c\<in>set x. isdigit c \<and> decimal_value c = None)"
    by (auto simp: those_None_iff image_iff)
  have l: "\<And>digits. those (map decimal_value ?ds) = Some digits \<Longrightarrow> length digits = length ?ds"
    using those_Some_all by fastforce
  show ?thesis
  proof (cases "those (map decimal_value ?ds)")
    case None
    with n show ?thesis by (auto simp: int_of_digits_def Let_def)
  next
    case (Some digits)
    with n have "\<forall>c\<in>set x. isdigit c \<longrightarrow> decimal_value c \<noteq> None" by auto
    with Some l[OF Some] show ?thesis
      by (auto simp: int_of_digits_def Let_def int_max_str_digits_def)
  qed
qed

lemma bitrate_of_abr:
  "bitrate_of s = (case abr s of None \<Rightarrow> Inr 128 | Some x \<Rightarrow> if x = [] then Inr 128 else int_of_digits x)"
proof -
  have "int_of_digits (lit ''128'') = Inr 128" by code_simp
  then show ?thesis by (simp add: bitrate_of_def split: option.splits)
qed

lemma scenario_B_bitrates:
  "bitrate_of scenario_B_first = Inr 128" "bitrate_of scenario_B_second = Inr 160"
  "bitrate_of scenario_B_third = Inr 128"
  by code_simp+

lemma scenario_B_ranked: "rank_audio scenario_B = Inr [scenario_B_second, scenario_B_first]"
  by code_simp

lemma fullwidth_bitrate: "bitrate_of fullwidth_audio = Inr 128"
  by code_simp

text \<open>
  Claim C6, as amended.  The bitrate of an audio stream is 128 when its label is absent or
  empty, and otherwise what \<^verbatim>\<open>int\<close> makes of the digit characters of the label: a number
  when there is at least one digit character, every digit character is a decimal digit and
  there are at most 4300 of them (the number these digits spell, so that "128kbps", also
  with fullwidth digits, is 128), and ValueError otherwise.  For every list of audio
  streams each of which has a bitrate, the ranking returns; the ranked list has exactly one
  entry for each bitrate that occurs, in strictly descending order of the bitrates, and
  each entry is a stream of the list whose file is no larger than that of any stream of
  the same bitrate.  For every other list the ranking raises ValueError.
\<close>

theorem rank_audio_buckets:
  "((\<forall>s\<in>set auds. \<exists>n. bitrate_of s = Inr n) \<longrightarrow>
      (\<exists>ranked. rank_audio auds = Inr ranked \<and>
         length ranked = card (bucket ` set auds) \<and>
         bucket ` set ranked = bucket ` set auds \<and>
         sorted_wrt (\<lambda>a b. bucket b < bucket a) ranked \<and>
         (\<forall>a\<in>set ranked. a \<in> set auds \<and>
            (\<forall>b\<in>set auds. bucket b = bucket a \<longrightarrow> filesize a \<le> filesize b)) \<and>
         (\<forall>s\<in>set auds. bitrate_of s = Inr (bucket s)))) \<and>
   (\<not> (\<forall>s\<in>set auds. \<exists>n. bitrate_of s = Inr n) \<longrightarrow> rank_audio auds = Inl ValueError) \<and>
   (\<forall>s. bitrate_of s =
          (case abr s of None \<Rightarrow> Inr 128 | Some x \<Rightarrow> if x = [] then Inr 128 else int_of_digits x)) \<and>
   (\<forall>x. (\<exists>n. int_of_digits x = Inr n) \<longleftrightarrow>
          (filter isdigit x \<noteq> [] \<and> (\<forall>c\<in>set x. isdigit c \<longrightarrow> decimal_value c \<noteq> None) \<and>
           length (filter isdigit x) \<le> 4300)) \<and>
   (\<forall>x. (\<exists>n. int_of_digits x = Inr n) \<or> int_of_digits x = Inl ValueError) \<and>
   rank_audio scenario_B = Inr [scenario_B_second, scenario_B_first] \<and>
   bitrate_of scenario_B_first = Inr 128 \<and> bitrate_of scenario_B_second = Inr 160 \<and>
   bitrate_of fullwidth_audio = Inr 128"
proof -
  have ranking: "(\<forall>s\<in>set auds. \<exists>n. bitrate_of s = Inr n) \<longrightarrow>
      (\<exists>ranked. rank_audio auds = Inr ranked \<and>
         length ranked = card (bucket ` set auds) \<and>
         bucket ` set ranked = bucket ` set auds \<and>
         sorted_wrt (\<lambda>a b. bucket b < bucket a) ranked \<and>
         (\<forall>a\<in>set ranked. a \<in> set auds \<and>
            (\<forall>b\<in>set auds. bucket b = bucket a \<longrightarrow> filesize a \<le> filesize b)) \<and>
         (\<forall>s\<in>set auds. bitrate_of s = Inr (bucket s)))"
  proof
    assume h: "\<forall>s\<in>set auds. \<exists>n. bitrate_of s = Inr n"
    from rank_audio_total[OF h] obtain ranked where r: "rank_audio auds = Inr ranked" by blast
    from r obtain d where
      r1: "sorted_wrt (\<lambda>a b. bucket b < bucket a) ranked" and
      r2: "\<forall>a\<in>set ranked. a \<in> set auds \<and>
                (\<forall>b\<in>set auds. bucket b = bucket a \<longrightarrow> filesize a \<le> filesize b)" and
      r3: "\<forall>s\<in>set auds. bitrate_of s = Inr (bucket s) \<and> (\<exists>a\<in>set ranked. bucket a = bucket s)"
      by (rule rank_audio_Inr)
    have img: "bucket ` set ranked = bucket ` set auds"
    proof (rule set_eqI, rule iffI)
      fix x assume "x \<in> bucket ` set ranked"
      then obtain a where "a \<in> set ranked" "x = bucket a" by (rule imageE)
      with r2 show "x \<in> bucket ` set auds" by simp
    next
      fix x assume "x \<in> bucket ` set auds"
      then obtain s where s: "s \<in> set auds" "x = bucket s" by (rule imageE)
      with r3 obtain a where "a \<in> set ranked" "bucket a = bucket s" by blast
      with s show "x \<in> bucket ` set ranked" by (simp add: rev_image_eqI)
    qed
    have "sorted_wrt (\<lambda>x y. y < x) (map bucket ranked)" using r1 by (simp add: sorted_wrt_map)
    then have "distinct (map bucket ranked)" by (rule strict_desc_distinct)
    then have "card (set (map bucket ranked)) = length (map bucket ranked)" by (rule distinct_card)
    then have len: "length ranked = card (bucket ` set auds)" using img by simp
    have br: "\<forall>s\<in>set auds. bitrate_of s = Inr (bucket s)" using r3 by blast
    show "\<exists>ranked. rank_audio auds = Inr ranked \<and>
         length ranked = card (bucket ` set auds) \<and>
         bucket ` set ranked = bucket ` set auds \<and>
         sorted_wrt (\<lambda>a b. bucket b < bucket a) ranked \<and>
         (\<forall>a\<in>set ranked. a \<in> set auds \<and>
            (\<forall>b\<in>set auds. bucket b = bucket a \<longrightarrow> filesize a \<le> filesize b)) \<and>
         (\<forall>s\<in>set auds. bitrate_of s = Inr (bucket s))"
      by (intro exI[of _ ranked] conjI) (fact r len img r1 r2 br)+
  qed
  have raising: "\<not> (\<forall>s\<in>set auds. \<exists>n. bitrate_of s = Inr n) \<longrightarrow> rank_audio auds = Inl ValueError"
    using rank_audio_raises by blast
  have reading: "\<forall>s. bitrate_of s =
          (case abr s of None \<Rightarrow> Inr 128 | Some x \<Rightarrow> if x = [] then Inr 128 else int_of_digits x)"
    using bitrate_of_abr by blast
  have returns: "\<forall>x. (\<exists>n. int_of_digits x = Inr n) \<longleftrightarrow>
          (filter isdigit x \<noteq> [] \<and> (\<forall>c\<in>set x. isdigit c \<longrightarrow> decimal_value c \<noteq> None) \<and>
           length (filter isdigit x) \<le> 4300)"
    using int_of_digits_returns by blast
  have errors: "\<forall>x. (\<exists>n. int_of_digits x = Inr n) \<or> int_of_digits x = Inl ValueError"
  proof
    fix x show "(\<exists>n. int_of_digits x = Inr n) \<or> int_of_digits x = Inl ValueError"
      by (cases "int_of_digits x") (auto dest: int_of_digits_error)
  qed
  show ?thesis
    by (intro conjI) (fact ranking raising reading returns errors scenario_B_ranked
        scenario_B_bitrates(1) scenario_B_bitrates(2) fullwidth_bitrate)+
qed

text \<open>The theorem at the audio streams of Scenario B, and at a list with a label without digit.\<close>

theorem rank_audio_buckets_witness:
  "rank_audio scenario_B = Inr [scenario_B_second, scenario_B_first] \<and>
   length [scenario_B_second, scenario_B_first] = card (bucket ` set scenario_B) \<and>
   rank_audio [scenario_B_first, undigited_audio] = Inl ValueError"
proof -
  have h: "\<forall>s\<in>set scenario_B. \<exists>n. bitrate_of s = Inr n"
    by (simp add: scenario_B_def scenario_B_bitrates)
  have "bitrate_of undigited_audio = Inl ValueError" by code_simp
  then have g: "\<not> (\<forall>s\<in>set [scenario_B_first, undigited_audio]. \<exists>n. bitrate_of s = Inr n)" by simp
  from rank_audio_buckets[of scenario_B, THEN conjunct1] h
  have "length [scenario_B_second, scenario_B_first] = card (bucket ` set scenario_B)"
    by (simp add: scenario_B_ranked)
  moreover from rank_audio_buckets[of "[scenario_B_first, undigited_audio]", THEN conjunct2, THEN conjunct1] g
  have "rank_audio [scenario_B_first, undigited_audio] = Inl ValueError" by blast
  ultimately show ?thesis using scenario_B_ranked by simp
qed

text \<open>
  Claim C6 does not hold as it stands.  A label from which no number can be read is not
  put into bucket 128: the ranking raises ValueError, for a label without digit as for a
  label whose number is followed by a superscript two.  A label with a fraction is not
  rounded: its digits are concatenated.
\<close>

theorem rank_audio_undigited_counterexample:
  "rank_audio [undigited_audio] = Inl ValueError \<and>
   bitrate_of undigited_audio = Inl ValueError \<and>
   rank_audio [scenario_B_first, superscript_audio] = Inl ValueError \<and>
   bitrate_of fractional_audio = Inr 1285 \<and>
   rank_audio [fractional_audio, scenario_B_first] = Inr [fractional_audio, scenario_B_first]"
  by code_simp

lemma virtual_streams_take2: "ranked = a # rest \<Longrightarrow> take 2 (virtual_streams ranked) = [mp3_stream a, aac_stream a]"
  by (simp add: numeral_2_eq_2)

lemma scenario_B_menu:
  "organize_streams scenario_B False =
     Inr ([], [Virtual \<lparr>vtype = (lit ''audio''), vsubtype = (lit ''mp3''), vabr = (lit ''160kbps''),
                        vfilesize = 4194304, vaudio_codec = (lit ''mp3''),
                        original_stream = scenario_B_second\<rparr>,
               Virtual \<lparr>vtype = (lit ''audio''), vsubtype = (lit ''aac''), vabr = (lit ''160kbps''),
                        vfilesize = 4194304, vaudio_codec = (lit ''aac''),
                        original_stream = scenario_B_second\<rparr>])"
  by code_simp

lemma scenario_B_rows:
  "print_stream_options []
     [Virtual (mp3_stream scenario_B_second), Virtual (aac_stream scenario_B_second)] =
     Inr [((lit ''160kbps''), (lit ''mp3''), 4194304), ((lit ''160kbps''), (lit ''aac''), 4194304)]"
  by code_simp

lemma high_audio_menu:
  "organize_streams [scenario_B_first, high_audio] False =
     Inr ([], [Virtual (mp3_stream high_audio), Virtual (aac_stream high_audio)])"
  by code_simp

lemma high_audio_larger: "filesize scenario_B_first < filesize high_audio"
  by code_simp

text \<open>
  Claim C4, as amended.  When \<open>verbose\<close> is false, at least one audio-only stream exists
  and \<^verbatim>\<open>organize_streams\<close> does not raise (see above for the labels), the audio list of the
  menu returned is exactly two virtual entries, mp3 then aac, made from one audio-only
  stream \<open>a\<close> of the input: \<open>a\<close> has the highest bitrate, its file is no larger than that
  of any stream of that bitrate, and both entries carry the file size of \<open>a\<close> and, as
  their label, the \<open>abr\<close> of \<open>a\<close> when it has one and "160kbps" when it has none, in which
  case the bitrate of \<open>a\<close> is 128.  For Scenario B the two entries are made from the
  160 kbps stream and are printed as "160kbps", mp3 and aac, 4 MB each; for a 128 kbps
  stream of 5 MB and a 256 kbps stream of 8 MB they are made from the larger 256 kbps
  stream.
\<close>

theorem organize_streams_default_audio:
  assumes "\<forall>s\<in>set streams. video_candidate False s \<longrightarrow>
             (\<exists>x n. resolution s = Some x \<and> int_of_digits x = Inr n)"
    and "\<forall>s\<in>set streams. audio_only s \<longrightarrow> (\<exists>n. bitrate_of s = Inr n)"
    and "\<exists>s\<in>set streams. audio_only s"
  shows "(\<exists>vs a. organize_streams streams False =
                    Inr (vs, [Virtual (mp3_stream a), Virtual (aac_stream a)]) \<and>
            a \<in> set streams \<and> audio_only a \<and> bitrate_of a = Inr (bucket a) \<and>
            (\<forall>b\<in>set streams. audio_only b \<longrightarrow>
               bitrate_of b = Inr (bucket b) \<and> bucket b \<le> bucket a \<and>
               (bucket b = bucket a \<longrightarrow> filesize a \<le> filesize b)) \<and>
            vsubtype (mp3_stream a) = (lit ''mp3'') \<and> vsubtype (aac_stream a) = (lit ''aac'') \<and>
            vfilesize (mp3_stream a) = filesize a \<and> vfilesize (aac_stream a) = filesize a \<and>
            (truthy (abr a) \<longrightarrow>
               abr a = Some (vabr (mp3_stream a)) \<and> abr a = Some (vabr (aac_stream a))) \<and>
            (\<not> truthy (abr a) \<longrightarrow>
               vabr (mp3_stream a) = (lit ''160kbps'') \<and> vabr (aac_stream a) = (lit ''160kbps'') \<and>
               bucket a = 128)) \<and>
         organize_streams scenario_B False =
           Inr ([], [Virtual \<lparr>vtype = (lit ''audio''), vsubtype = (lit ''mp3''), vabr = (lit ''160kbps''),
                              vfilesize = 4194304, vaudio_codec = (lit ''mp3''),
                              original_stream = scenario_B_second\<rparr>,
                     Virtual \<lparr>vtype = (lit ''audio''), vsubtype = (lit ''aac''), vabr = (lit ''160kbps''),
                              vfilesize = 4194304, vaudio_codec = (lit ''aac''),
                              original_stream = scenario_B_second\<rparr>]) \<and>
         print_stream_options []
           [Virtual (mp3_stream scenario_B_second), Virtual (aac_stream scenario_B_second)] =
           Inr [((lit ''160kbps''), (lit ''mp3''), 4194304), ((lit ''160kbps''), (lit ''aac''), 4194304)] \<and>
         organize_streams [scenario_B_first, high_audio] False =
           Inr ([], [Virtual (mp3_stream high_audio), Virtual (aac_stream high_audio)]) \<and>
         filesize scenario_B_first < filesize high_audio"
proof -
  let ?auds = "filter audio_only streams"
  from organize_streams_returns[OF assms(1,2)] obtain vs items where
    ret: "organize_streams streams False = Inr (vs, items)" by blast
  from assms(3) have ne: "?auds \<noteq> []" by (auto simp: filter_empty_conv)
  from organize_streams_Inr[OF ret] ne obtain ranked where
    r: "rank_audio ?auds = Inr ranked" and
    items: "items = map Virtual (take 2 (virtual_streams ranked))"
    by auto
  from r obtain d where
    r1: "sorted_wrt (\<lambda>a b. bucket b < bucket a) ranked" and
    r2: "\<forall>a\<in>set ranked. a \<in> set ?auds \<and>
              (\<forall>b\<in>set ?auds. bucket b = bucket a \<longrightarrow> filesize a \<le> filesize b)" and
    r3: "\<forall>s\<in>set ?auds. bitrate_of s = Inr (bucket s) \<and> (\<exists>a\<in>set ranked. bucket a = bucket s)"
    by (rule rank_audio_Inr)
  from ne obtain s0 where "s0 \<in> set ?auds" by (cases ?auds) auto
  with r3 have "ranked \<noteq> []" by fastforce
  then obtain a rest where ranked: "ranked = a # rest" by (cases ranked) auto
  have i: "items = [Virtual (mp3_stream a), Virtual (aac_stream a)]"
    using items virtual_streams_take2[OF ranked] by simp
  from r2 ranked have a: "a \<in> set streams" "audio_only a"
    and amin: "\<forall>b\<in>set ?auds. bucket b = bucket a \<longrightarrow> filesize a \<le> filesize b"
    by auto
  from a r3 have ba: "bitrate_of a = Inr (bucket a)" by simp
  have top: "\<forall>b\<in>set streams. audio_only b \<longrightarrow>
               bitrate_of b = Inr (bucket b) \<and> bucket b \<le> bucket a \<and>
               (bucket b = bucket a \<longrightarrow> filesize a \<le> filesize b)"
  proof (intro ballI impI)
    fix b assume "b \<in> set streams" "audio_only b"
    then have b: "b \<in> set ?auds" by simp
    with r3 obtain a' where a': "a' \<in> set ranked" "bucket a' = bucket b" by blast
    from a' r1 ranked have "bucket b \<le> bucket a" by auto
    with amin b r3 show "bitrate_of b = Inr (bucket b) \<and> bucket b \<le> bucket a \<and>
        (bucket b = bucket a \<longrightarrow> filesize a \<le> filesize b)"
      by simp
  qed
  have lab: "truthy (abr a) \<longrightarrow>
               abr a = Some (vabr (mp3_stream a)) \<and> abr a = Some (vabr (aac_stream a))"
    by (auto simp: truthy_def virtual_label_def mp3_stream_def aac_stream_def split: option.splits)
  have nolab: "\<not> truthy (abr a) \<longrightarrow>
               vabr (mp3_stream a) = (lit ''160kbps'') \<and> vabr (aac_stream a) = (lit ''160kbps'') \<and>
               bucket a = 128"
  proof
    assume t: "\<not> truthy (abr a)"
    then have "bitrate_of a = Inr 128" by (rule bitrate_absent)
    then have "bucket a = 128" by (rule bucket_Inr)
    with t show "vabr (mp3_stream a) = (lit ''160kbps'') \<and> vabr (aac_stream a) = (lit ''160kbps'') \<and>
               bucket a = 128"
      by (auto simp: truthy_def virtual_label_def mp3_stream_def aac_stream_def split: option.splits)
  qed
  have sub: "vsubtype (mp3_stream a) = (lit ''mp3'')" "vsubtype (aac_stream a) = (lit ''aac'')"
    "vfilesize (mp3_stream a) = filesize a" "vfilesize (aac_stream a) = filesize a"
    by (simp_all add: mp3_stream_def aac_stream_def)
  have "\<exists>vs a. organize_streams streams False =
                    Inr (vs, [Virtual (mp3_stream a), Virtual (aac_stream a)]) \<and>
            a \<in> set streams \<and> audio_only a \<and> bitrate_of a = Inr (bucket a) \<and>
            (\<forall>b\<in>set streams. audio_only b \<longrightarrow>
               bitrate_of b = Inr (bucket b) \<and> bucket b \<le> bucket a \<and>
               (bucket b = bucket a \<longrightarrow> filesize a \<le> filesize b)) \<and>
            vsubtype (mp3_stream a) = (lit ''mp3'') \<and> vsubtype (aac_stream a) = (lit ''aac'') \<and>
            vfilesize (mp3_stream a) = filesize a \<and> vfilesize (aac_stream a) = filesize a \<and>
            (truthy (abr a) \<longrightarrow>
               abr a = Some (vabr (mp3_stream a)) \<and> abr a = Some (vabr (aac_stream a))) \<and>
            (\<not> truthy (abr a) \<longrightarrow>
               vabr (mp3_stream a) = (lit ''160kbps'') \<and> vabr (aac_stream a) = (lit ''160kbps'') \<and>
               bucket a = 128)"
    by (rule exI[of _ vs], rule exI[of _ a], intro conjI)
       (fact ret[unfolded i] a ba top sub lab nolab)+
  then show ?thesis
    using scenario_B_menu scenario_B_rows high_audio_menu high_audio_larger by (intro conjI)
qed

text \<open>The theorem at Scenario B.\<close>

theorem organize_streams_default_audio_witness:
  "organize_streams scenario_B False =
     Inr ([], [Virtual (mp3_stream scenario_B_second), Virtual (aac_stream scenario_B_second)]) \<and>
   vabr (mp3_stream scenario_B_second) = (lit ''160kbps'') \<and>
   vfilesize (aac_stream scenario_B_second) = 4194304 \<and>
   (\<exists>vs a. organize_streams scenario_B False =
             Inr (vs, [Virtual (mp3_stream a), Virtual (aac_stream a)]) \<and>
          a \<in> set scenario_B \<and> audio_only a)"
proof -
  have m: "organize_streams scenario_B False =
     Inr ([], [Virtual (mp3_stream scenario_B_second), Virtual (aac_stream scenario_B_second)])"
    by code_simp
  have h1: "\<forall>s\<in>set scenario_B. video_candidate False s \<longrightarrow>
             (\<exists>x n. resolution s = Some x \<and> int_of_digits x = Inr n)"
    by (simp add: scenario_B_def scenario_B_first_def scenario_B_second_def scenario_B_third_def
        video_candidate_def)
  have h2: "\<forall>s\<in>set scenario_B. audio_only s \<longrightarrow> (\<exists>n. bitrate_of s = Inr n)"
    by (simp add: scenario_B_def scenario_B_bitrates)
  have h3: "\<exists>s\<in>set scenario_B. audio_only s"
    by (simp add: scenario_B_def scenario_B_first_def audio_only_def)
  have l: "vabr (mp3_stream scenario_B_second) = (lit ''160kbps'')" by code_simp
  have f: "vfilesize (aac_stream scenario_B_second) = 4194304" by code_simp
  note t = organize_streams_default_audio[OF h1 h2 h3, THEN conjunct1]
  have e: "\<exists>vs a. organize_streams scenario_B False =
             Inr (vs, [Virtual (mp3_stream a), Virtual (aac_stream a)]) \<and>
          a \<in> set scenario_B \<and> audio_only a"
  proof -
    from t obtain vs a where
      A: "organize_streams scenario_B False =
             Inr (vs, [Virtual (mp3_stream a), Virtual (aac_stream a)]) \<and>
          a \<in> set scenario_B \<and> audio_only a \<and> bitrate_of a = Inr (bucket a) \<and>
          (\<forall>b\<in>set scenario_B. audio_only b \<longrightarrow>
               bitrate_of b = Inr (bucket b) \<and> bucket b \<le> bucket a \<and>
               (bucket b = bucket a \<longrightarrow> filesize a \<le> filesize b)) \<and>
          vsubtype (mp3_stream a) = (lit ''mp3'') \<and> vsubtype (aac_stream a) = (lit ''aac'') \<and>
          vfilesize (mp3_stream a) = filesize a \<and> vfilesize (aac_stream a) = filesize a \<and>
          (truthy (abr a) \<longrightarrow>
             abr a = Some (vabr (mp3_stream a)) \<and> abr a = Some (vabr (aac_stream a))) \<and>
          (\<not> truthy (abr a) \<longrightarrow>
             vabr (mp3_stream a) = (lit ''160kbps'') \<and> vabr (aac_stream a) = (lit ''160kbps'') \<and>
             bucket a = 128)"
      by (elim exE)
    show ?thesis
      by (rule exI[of _ vs], rule exI[of _ a], intro conjI)
        (rule A[THEN conjunct1] A[THEN conjunct2, THEN conjunct1]
           A[THEN conjunct2, THEN conjunct2, THEN conjunct1])+
  qed
  show ?thesis by (intro conjI) (fact m l f e)+
qed

text \<open>
  Claim C4 does not hold as it stands.  The stream of the highest bitrate can be one
  without label: after a 96 kbps stream, a stream without \<open>abr\<close> has the bitrate 128, and
  the two entries made from it carry the label "160kbps", which is not a label of that
  stream (it has none) and not its bitrate.  And a stream list can make
  \<^verbatim>\<open>organize_streams\<close> raise, although it holds an audio-only stream: no audio list is
  returned then.
\<close>

theorem unlabelled_top_bucket_counterexample:
  "organize_streams [low_audio, unlabelled_audio] False =
     Inr ([], [Virtual (mp3_stream unlabelled_audio), Virtual (aac_stream unlabelled_audio)]) \<and>
   abr unlabelled_audio = None \<and>
   vabr (mp3_stream unlabelled_audio) = (lit ''160kbps'') \<and>
   vabr (aac_stream unlabelled_audio) = (lit ''160kbps'') \<and>
   bitrate_of unlabelled_audio = Inr 128 \<and> bitrate_of low_audio = Inr 96 \<and>
   print_stream_options []
     [Virtual (mp3_stream unlabelled_audio), Virtual (aac_stream unlabelled_audio)] =
     Inr [((lit ''160kbps''), (lit ''mp3''), 3145728), ((lit ''160kbps''), (lit ''aac''), 3145728)] \<and>
   organize_streams [scenario_B_first, undigited_audio] False = Inl ValueError \<and>
   organize_streams [unresolved_video, scenario_B_first] False = Inl TypeError"
  by code_simp

text \<open>
  Claim C9.  Whenever the audio ranking returns, a stream of the ranked list whose \<open>abr\<close> is
  absent (or empty) gives two virtual entries, mp3 and aac, with the label "160kbps",
  while the dedup loop stored it under the key "128kbps", its bucket being 128: the two
  defaults are 160 and 128.
\<close>

theorem absent_bitrate_defaults:
  assumes "\<forall>s\<in>set auds. \<exists>n. bitrate_of s = Inr n"
  shows "\<exists>ranked d. rank_audio auds = Inr ranked \<and> audio_dedup auds [] = Inr d \<and>
           (\<forall>a\<in>set ranked. \<not> truthy (abr a) \<longrightarrow>
              vabr (mp3_stream a) = (lit ''160kbps'') \<and> vabr (aac_stream a) = (lit ''160kbps'') \<and>
              mp3_stream a \<in> set (virtual_streams ranked) \<and>
              aac_stream a \<in> set (virtual_streams ranked) \<and>
              bitrate_of a = Inr 128 \<and> map_of d (lit ''128kbps'') = Some a) \<and>
           int_of_digits (lit ''160kbps'') = Inr 160"
proof -
  from rank_audio_total[OF assms] obtain ranked where r: "rank_audio auds = Inr ranked" by blast
  from r obtain d where d: "audio_dedup auds [] = Inr d"
    and r4: "\<forall>a\<in>set ranked. map_of d (key_of (bucket a)) = Some a"
    by (rule rank_audio_Inr)
  have each: "\<forall>a\<in>set ranked. \<not> truthy (abr a) \<longrightarrow>
              vabr (mp3_stream a) = (lit ''160kbps'') \<and> vabr (aac_stream a) = (lit ''160kbps'') \<and>
              mp3_stream a \<in> set (virtual_streams ranked) \<and>
              aac_stream a \<in> set (virtual_streams ranked) \<and>
              bitrate_of a = Inr 128 \<and> map_of d (lit ''128kbps'') = Some a"
  proof (intro ballI impI)
    fix a assume a: "a \<in> set ranked" and t: "\<not> truthy (abr a)"
    from t have lab: "virtual_label a = (lit ''160kbps'')"
      by (auto simp: truthy_def virtual_label_def split: option.splits)
    from t have b: "bitrate_of a = Inr 128" by (rule bitrate_absent)
    then have bk: "bucket a = 128" by (rule bucket_Inr)
    from r4 a have "map_of d (key_of (bucket a)) = Some a" by blast
    then have k: "map_of d (lit ''128kbps'') = Some a" unfolding bk key_of_128 .
    have mem: "mp3_stream a \<in> set (virtual_streams ranked) \<and>
               aac_stream a \<in> set (virtual_streams ranked)"
      using a by (induction ranked) auto
    from lab b k mem show "vabr (mp3_stream a) = (lit ''160kbps'') \<and> vabr (aac_stream a) = (lit ''160kbps'') \<and>
              mp3_stream a \<in> set (virtual_streams ranked) \<and>
              aac_stream a \<in> set (virtual_streams ranked) \<and>
              bitrate_of a = Inr 128 \<and> map_of d (lit ''128kbps'') = Some a"
      by (simp add: mp3_stream_def aac_stream_def)
  qed
  have "int_of_digits (lit ''160kbps'') = Inr 160" by code_simp
  with r d each show ?thesis by blast
qed

text \<open>The theorem at a single audio stream without label.\<close>

theorem absent_bitrate_defaults_witness:
  "rank_audio [unlabelled_audio] = Inr [unlabelled_audio] \<and>
   vabr (mp3_stream unlabelled_audio) = (lit ''160kbps'') \<and>
   bitrate_of unlabelled_audio = Inr 128"
proof -
  have r: "rank_audio [unlabelled_audio] = Inr [unlabelled_audio]" by code_simp
  have t: "\<not> truthy (abr unlabelled_audio)" by code_simp
  have h: "\<forall>s\<in>set [unlabelled_audio]. \<exists>n. bitrate_of s = Inr n"
    using bitrate_absent[OF t] by simp
  from absent_bitrate_defaults[OF h] obtain ranked where
    r': "rank_audio [unlabelled_audio] = Inr ranked" and
    e: "\<forall>a\<in>set ranked. \<not> truthy (abr a) \<longrightarrow>
          vabr (mp3_stream a) = (lit ''160kbps'') \<and> bitrate_of a = Inr 128"
    by blast
  from r r' have "ranked = [unlabelled_audio]" by simp
  with e t have "vabr (mp3_stream unlabelled_audio) = (lit ''160kbps'') \<and>
      bitrate_of unlabelled_audio = Inr 128" by simp
  with r show ?thesis by simp
qed

section \<open>The session\<close>

lemma choose_format_empty_menu:
  "fst (choose_format 0 events) = PromptCancelled \<or> fst (choose_format 0 events) = InputEnded"
  by (induction "0::nat" events rule: choose_format.induct) (auto split: prod.splits)

lemma choose_format_bound: "choose_format n events = (Chosen i, ms) \<Longrightarrow> i < n"
  by (induction n events arbitrary: ms rule: choose_format.induct)
     (auto split: prod.splits if_splits)

text \<open>
  Claim C8, evaluated where it fails.  For the empty stream list \<^verbatim>\<open>organize_streams\<close>
  returns the empty menu.  \<^verbatim>\<open>download_video\<close> does not test for it: it prompts, no answer
  selects an entry, and the session ends only when the user interrupts (status 0, no
  error) or the input ends (status 1 with the message about an incorrect link).
\<close>

theorem empty_menu_is_prompted:
  "organize_streams [] verbose = Inr ([], []) \<and>
   (\<forall>events. fst (choose_format 0 events) = PromptCancelled \<or>
             fst (choose_format 0 events) = InputEnded) \<and>
   download_video title [] verbose [Answer (Some 1), Answer None, Interrupt] env fs =
     (Some 0, fs, [InvalidNumber, NotANumber, CancelledAtPrompt]) \<and>
   download_video title [] verbose [Answer (Some 1), Answer (Some 0)] env fs =
     (Some 1, fs, [InvalidNumber, InvalidNumber, ErrorIncorrectLink])"
proof -
  have o: "organize_streams [] verbose = Inr ([], [])"
    by (simp add: organize_streams_def order_video_def rank_audio_def sorted_reverse_def)
  have p: "print_stream_options [] [] = Inr []" by (simp add: print_stream_options_def)
  have "download_video title [] verbose [Answer (Some 1), Answer None, Interrupt] env fs =
     (Some 0, fs, [InvalidNumber, NotANumber, CancelledAtPrompt])"
    by (simp add: download_video_def o p)
  moreover have "download_video title [] verbose [Answer (Some 1), Answer (Some 0)] env fs =
     (Some 1, fs, [InvalidNumber, InvalidNumber, ErrorIncorrectLink])"
    by (simp add: download_video_def o p outer_handlers_def)
  ultimately show ?thesis using o choose_format_empty_menu by blast
qed

lemma adaptive_path_removes_temps:
  "adaptive_path t s a env fs = (c, fs', ms) \<Longrightarrow>
     fs' (video_temp t s) = None \<and> fs' (audio_temp t a) = None"
  by (auto simp: adaptive_path_def remove_file_def split: prod.splits)

lemma convert_path_tool_failure:
  assumes "selected_download env = Downloaded" and "tool env = ToolExit rc leaves" and "rc \<noteq> 0"
    and "convert_path t v env fs = (c, fs', ms)"
  shows "c = SysExit 1 \<and> fs' (temp_name t (original_stream v)) = Some Complete"
  using assms
  by (auto simp: convert_path_def download_to_def run_tool_def Let_def temp_name_def
      audio_filename_def lit_def split: if_splits)

text \<open>
  Claim C2, evaluated where it fails.  The mp3 entry of Scenario B is selected, the
  download succeeds and the conversion exits with status 1: the session ends with status
  1 and the temporary file is still in the download directory.
\<close>

theorem conversion_failure_keeps_temp:
  "fst (download_video (lit ''song'') scenario_B False [Answer (Some 1)] tool_fails Map.empty) = Some 1 \<and>
   fst (snd (download_video (lit ''song'') scenario_B False [Answer (Some 1)] tool_fails Map.empty))
     (lit ''song_temp.webm'') = Some Complete \<and>
   snd (snd (download_video (lit ''song'') scenario_B False [Answer (Some 1)] tool_fails Map.empty)) =
     [ErrorConverting]"
  by code_simp

lemma temp_is_not_destination:
  "temp_name t s \<noteq> audio_filename t sub"
  by (simp add: temp_name_def audio_filename_def lit_def)

text \<open>What each path leaves under the name of its output.\<close>

lemma direct_path_destination:
  assumes "direct_path f env fs = (c, fs', ms)"
  shows "fs' f =
           (case selected_download env of
              Downloaded \<Rightarrow> Some Complete
            | DownloadAborted r partial \<Rightarrow> if partial then Some Partial else fs f)"
    and "c = Normal \<longrightarrow> selected_download env = Downloaded \<and> ms = [Completed f]"
  using assms
  by (auto simp: direct_path_def download_to_def open_file_explorer_def
      split: download_outcome.splits explorer_outcome.splits)

lemma convert_path_destination:
  assumes "convert_path t v env fs = (c, fs', ms)"
  shows "fs' (audio_filename t (vsubtype v)) =
           (if selected_download env = Downloaded \<and> tool_succeeds (tool env) then Some Complete
            else if selected_download env = Downloaded \<and> tool_leaves_partial (tool env)
            then Some Partial
            else fs (audio_filename t (vsubtype v)))"
    and "c = Normal \<longrightarrow>
           selected_download env = Downloaded \<and> tool_succeeds (tool env) \<and>
           fs' (temp_name t (original_stream v)) = None \<and>
           ms = [Completed (audio_filename t (vsubtype v))]"
  using assms temp_is_not_destination[of t "original_stream v" "vsubtype v"]
  by (auto simp: convert_path_def download_to_def run_tool_def open_file_explorer_def
      remove_file_def Let_def tool_succeeds_def tool_leaves_partial_def
      split: download_outcome.splits tool_outcome.splits explorer_outcome.splits if_splits)

lemma adaptive_body_destination:
  assumes "adaptive_body vt at out env fs = (c, fs', ms)" and "out \<noteq> vt" and "out \<noteq> at"
  shows "fs' out =
           (if selected_download env = Downloaded \<and> audio_download env = Downloaded \<and>
               tool_succeeds (tool env) then Some Complete
            else if selected_download env = Downloaded \<and> audio_download env = Downloaded \<and>
               tool_leaves_partial (tool env) then Some Partial
            else fs out)"
    and "c = Normal \<longrightarrow>
           selected_download env = Downloaded \<and> audio_download env = Downloaded \<and>
           tool_succeeds (tool env) \<and> ms = [Completed out]"
  using assms
  by (auto simp: adaptive_body_def download_to_def run_tool_def open_file_explorer_def
      tool_succeeds_def tool_leaves_partial_def
      split: download_outcome.splits tool_outcome.splits explorer_outcome.splits if_splits)

lemma adaptive_path_destination:
  assumes "adaptive_path t s a env fs = (c, fs', ms)"
    and "video_filename t s \<noteq> video_temp t s" and "video_filename t s \<noteq> audio_temp t a"
  shows "fs' (video_filename t s) =
           (if selected_download env = Downloaded \<and> audio_download env = Downloaded \<and>
               tool_succeeds (tool env) then Some Complete
            else if selected_download env = Downloaded \<and> audio_download env = Downloaded \<and>
               tool_leaves_partial (tool env) then Some Partial
            else fs (video_filename t s))"
    and "c = Normal \<longrightarrow>
           selected_download env = Downloaded \<and> audio_download env = Downloaded \<and>
           tool_succeeds (tool env) \<and> ms = [Completed (video_filename t s)]"
proof -
  from assms(1) obtain fs1 where
    b: "adaptive_body (video_temp t s) (audio_temp t a) (video_filename t s) env fs = (c, fs1, ms)"
    and fs': "fs' = remove_file (audio_temp t a) (remove_file (video_temp t s) fs1)"
    by (auto simp: adaptive_path_def split: prod.splits)
  from fs' assms(2,3) have "fs' (video_filename t s) = fs1 (video_filename t s)"
    by (simp add: remove_file_def)
  with adaptive_body_destination(1)[OF b assms(2,3)]
  show "fs' (video_filename t s) =
           (if selected_download env = Downloaded \<and> audio_download env = Downloaded \<and>
               tool_succeeds (tool env) then Some Complete
            else if selected_download env = Downloaded \<and> audio_download env = Downloaded \<and>
               tool_leaves_partial (tool env) then Some Partial
            else fs (video_filename t s))"
    by simp
  from adaptive_body_destination(2)[OF b assms(2,3)]
  show "c = Normal \<longrightarrow>
           selected_download env = Downloaded \<and> audio_download env = Downloaded \<and>
           tool_succeeds (tool env) \<and> ms = [Completed (video_filename t s)]" .
qed

text \<open>
  The download stage does end normally when every collaborator succeeds and the entry can
  be selected in the mode of the session.
\<close>

lemma download_selected_succeeds:
  assumes "selected_download env = Downloaded" and "audio_download env = Downloaded"
    and "tool env = ToolExit 0 leaves" and "explorer env = Opened"
    and "case selected of
           Virtual v \<Rightarrow> \<not> verbose
         | Raw s \<Rightarrow>
             if includes_video_track s then is_progressive s \<or> best_audio_track env \<noteq> None
             else verbose"
  shows "\<exists>fs' ms. download_selected t verbose selected env fs = (Normal, fs', ms)"
  using assms
  by (cases selected)
     (auto simp: download_selected_def convert_path_def adaptive_path_def adaptive_body_def
        direct_path_def download_to_def run_tool_def open_file_explorer_def Let_def
        split: option.splits)

text \<open>
  Claim C3, as amended.  Take any outcome of the download stage, the destination name being
  none of the temporary names.  The destination holds a complete file when the session
  wrote its output completely (the direct download succeeded, or the downloads and the
  external tool did); it holds a partial file when the direct download broke off after
  writing part of the file, or when the external tool failed or was interrupted after
  writing part of its output; in every other case it is as it was before the session.  So
  on the merge and conversion paths, where the streams are downloaded under temporary
  names, a download that fails or is cancelled leaves the destination untouched.  When the
  stage ends normally the output is complete, the temporary files are gone and the one
  message printed names the destination.  (Nothing is renamed: the direct download and the
  external tool write to the destination itself.)
\<close>

theorem destination_after_download:
  assumes "download_selected t verbose selected env fs = (c, fs', ms)"
    and "destination t selected \<notin> set (temp_files t selected env)"
  shows "fs' (destination t selected) =
           (if writes_complete verbose selected env then Some Complete
            else if writes_partial verbose selected env then Some Partial
            else fs (destination t selected)) \<and>
         (path_of verbose selected env \<noteq> Direct \<and>
          \<not> inputs_downloaded (path_of verbose selected env) env \<longrightarrow>
            fs' (destination t selected) = fs (destination t selected)) \<and>
         (c = Normal \<longrightarrow>
            writes_complete verbose selected env \<and>
            fs' (destination t selected) = Some Complete \<and>
            (\<forall>name\<in>set (temp_files t selected env). fs' name = None) \<and>
            ms = [Completed (destination t selected)])"
proof -
  let ?dest = "destination t selected"
  let ?p = "path_of verbose selected env"
  have main: "fs' ?dest =
           (if writes_complete verbose selected env then Some Complete
            else if writes_partial verbose selected env then Some Partial
            else fs ?dest) \<and>
         (c = Normal \<longrightarrow>
            writes_complete verbose selected env \<and>
            (\<forall>name\<in>set (temp_files t selected env). fs' name = None) \<and>
            ms = [Completed ?dest])"
  proof (cases ?p)
    case NoDownload
    then have "download_selected t verbose selected env fs = (Raise Exception, fs, [])"
      by (auto simp: path_of_def download_selected_def
          split: menu_item.splits if_splits option.splits)
    with assms(1) have "c = Raise Exception" "fs' = fs" by simp_all
    with NoDownload show ?thesis
      by (simp add: writes_complete_def writes_partial_def)
  next
    case Direct
    then obtain s where raw: "selected = Raw s"
      and d: "download_selected t verbose selected env fs = direct_path ?dest env fs"
      and tf: "temp_files t selected env = []"
      by (cases selected)
         (auto simp: path_of_def download_selected_def destination_def temp_files_def
          split: if_splits option.splits)
    from assms(1) d have run: "direct_path ?dest env fs = (c, fs', ms)" by simp
    from direct_path_destination[OF run] Direct tf show ?thesis
      by (auto simp: writes_complete_def writes_partial_def split: download_outcome.splits)
  next
    case Conversion
    then obtain v where v: "selected = Virtual v" and nv: "\<not> verbose"
      by (cases selected) (auto simp: path_of_def split: if_splits option.splits)
    from assms(1) v nv have run: "convert_path t v env fs = (c, fs', ms)"
      by (simp add: download_selected_def)
    from convert_path_destination[OF run] Conversion v show ?thesis
      by (simp add: writes_complete_def writes_partial_def inputs_downloaded_def
          destination_def temp_files_def)
  next
    case Remux
    then obtain s a where s: "selected = Raw s" and vt: "includes_video_track s"
      and np: "\<not> is_progressive s" and a: "best_audio_track env = Some a"
      by (cases selected) (auto simp: path_of_def split: if_splits option.splits)
    from assms(1) s vt np a have run: "adaptive_path t s a env fs = (c, fs', ms)"
      by (simp add: download_selected_def)
    from assms(2) s vt np a have
      ne: "video_filename t s \<noteq> video_temp t s" "video_filename t s \<noteq> audio_temp t a"
      by (auto simp: destination_def temp_files_def)
    from adaptive_path_destination[OF run ne] adaptive_path_removes_temps[OF run] Remux s vt np a
    show ?thesis
      by (simp add: writes_complete_def writes_partial_def inputs_downloaded_def
          destination_def temp_files_def)
  qed
  have untouched: "?p \<noteq> Direct \<and> \<not> inputs_downloaded ?p env \<longrightarrow> fs' ?dest = fs ?dest"
  proof
    assume h: "?p \<noteq> Direct \<and> \<not> inputs_downloaded ?p env"
    then have "\<not> writes_complete verbose selected env" "\<not> writes_partial verbose selected env"
      by (cases ?p; simp add: writes_complete_def writes_partial_def)+
    with main show "fs' ?dest = fs ?dest" by simp
  qed
  from main untouched show ?thesis by simp
qed

text \<open>
  The theorem at the merge of the first stream of Scenario A, which succeeds, and at the
  same selection when the video download is cancelled.
\<close>

theorem destination_after_download_witness:
  "download_selected (lit ''clip'') False (Raw scenario_A_first) all_well Map.empty =
     (Normal, [(lit ''clip_1080p.mp4'') \<mapsto> Complete], [Completed (lit ''clip_1080p.mp4'')]) \<and>
   destination (lit ''clip'') (Raw scenario_A_first) = (lit ''clip_1080p.mp4'') \<and>
   temp_files (lit ''clip'') (Raw scenario_A_first) all_well =
     [(lit ''clip_video_temp.mp4''), (lit ''clip_audio_temp.webm'')] \<and>
   writes_complete False (Raw scenario_A_first) all_well \<and>
   path_of False (Raw scenario_A_first) download_cancelled = Remux \<and>
   fst (download_selected (lit ''clip'') False (Raw scenario_A_first) download_cancelled
          [(lit ''clip_1080p.mp4'') \<mapsto> Complete]) = Raise KeyboardInterrupt \<and>
   fst (snd (download_selected (lit ''clip'') False (Raw scenario_A_first) download_cancelled
               [(lit ''clip_1080p.mp4'') \<mapsto> Complete])) (lit ''clip_1080p.mp4'') = Some Complete"
proof -
  let ?old = "[(lit ''clip_1080p.mp4'') \<mapsto> Complete]"
  have tf: "temp_files (lit ''clip'') (Raw scenario_A_first) all_well =
      [(lit ''clip_video_temp.mp4''), (lit ''clip_audio_temp.webm'')]" by code_simp
  have tf': "temp_files (lit ''clip'') (Raw scenario_A_first) download_cancelled =
      [(lit ''clip_video_temp.mp4''), (lit ''clip_audio_temp.webm'')]" by code_simp
  have d: "destination (lit ''clip'') (Raw scenario_A_first) = (lit ''clip_1080p.mp4'')" by code_simp
  have n: "destination (lit ''clip'') (Raw scenario_A_first) \<notin>
      set (temp_files (lit ''clip'') (Raw scenario_A_first) all_well)"
    unfolding tf d by simp
  have n': "destination (lit ''clip'') (Raw scenario_A_first) \<notin>
      set (temp_files (lit ''clip'') (Raw scenario_A_first) download_cancelled)"
    unfolding tf' d by simp
  have e: "download_selected (lit ''clip'') False (Raw scenario_A_first) all_well Map.empty =
     (Normal, ?old, [Completed (lit ''clip_1080p.mp4'')])"
    by (auto simp: download_selected_def scenario_A_first_def all_well_def adaptive_path_def
        adaptive_body_def download_to_def run_tool_def open_file_explorer_def remove_file_def
        video_temp_def audio_temp_def video_filename_def format_str_def scenario_B_second_def
        lit_append)
  have p: "path_of False (Raw scenario_A_first) download_cancelled = Remux" by code_simp
  have i: "\<not> inputs_downloaded Remux download_cancelled" by code_simp
  have c: "fst (download_selected (lit ''clip'') False (Raw scenario_A_first) download_cancelled ?old)
      = Raise KeyboardInterrupt" by code_simp
  obtain c' fs' ms where run:
    "download_selected (lit ''clip'') False (Raw scenario_A_first) download_cancelled ?old = (c', fs', ms)"
    by (rule prod_cases3)
  from destination_after_download[OF run n', THEN conjunct2, THEN conjunct1] p i
  have "fs' (lit ''clip_1080p.mp4'') = Some Complete" by (simp add: d)
  with run have u: "fst (snd (download_selected (lit ''clip'') False (Raw scenario_A_first)
      download_cancelled ?old)) (lit ''clip_1080p.mp4'') = Some Complete" by simp
  from destination_after_download[OF e n, THEN conjunct2, THEN conjunct2]
  have w: "writes_complete False (Raw scenario_A_first) all_well" by simp
  show ?thesis by (intro conjI) (fact e d tf w p c u)+
qed

text \<open>
  Claim C3 does not hold as it stands.  On the direct path a progressive stream is
  downloaded under the final name, and a download that breaks off leaves a partial file
  there.  On the merge path the external tool is given the final name as its output, and
  a run that exits with status 1 after writing part of the output leaves that part there.
\<close>

theorem partial_output_counterexample:
  "fst (download_video (lit ''clip'') [progressive_stream] False [Answer (Some 1)] download_breaks Map.empty)
     = Some 1 \<and>
   destination (clean_filename (lit ''clip'')) (Raw progressive_stream) = (lit ''clip_720p.mp4'') \<and>
   fst (snd (download_video (lit ''clip'') [progressive_stream] False [Answer (Some 1)] download_breaks
               Map.empty)) (lit ''clip_720p.mp4'') = Some Partial \<and>
   fst (download_video (lit ''clip'') scenario_A False [Answer (Some 1)] merge_breaks Map.empty)
     = Some 1 \<and>
   destination (clean_filename (lit ''clip'')) (Raw scenario_A_first) = (lit ''clip_1080p.mp4'') \<and>
   fst (snd (download_video (lit ''clip'') scenario_A False [Answer (Some 1)] merge_breaks
               Map.empty)) (lit ''clip_1080p.mp4'') = Some Partial"
  by code_simp

section \<open>Progress values\<close>

lemma monitor_values:
  "p \<in> set (fst (monitor scale known ls)) \<Longrightarrow>
     p = 100 \<or> (\<exists>c x. c \<in> set (counters ls) \<and> scale c = Some x \<and> p = min x 100)"
  by (induction scale known ls rule: monitor.induct)
     (auto split: if_splits option.splits prod.splits)

lemma monitor_CounterLine:
  "monitor scale known (CounterLine x # ls) =
     (case x of
        None \<Rightarrow> monitor scale known ls
      | Some c \<Rightarrow>
          if known then
            (case scale c of
               None \<Rightarrow> ([], False)
             | Some p \<Rightarrow> (case monitor scale known ls of (shown, ended) \<Rightarrow> (min p 100 # shown, ended)))
          else monitor scale known ls)"
  by (cases x) simp_all

lemma counters_CounterLine:
  "counters (CounterLine x # ls) = (case x of None \<Rightarrow> counters ls | Some c \<Rightarrow> c # counters ls)"
  by (cases x) simp_all

lemma monitor_sorted:
  assumes mono: "\<forall>a b x y. 0 \<le> a \<and> a \<le> b \<and> scale a = Some x \<and> scale b = Some y \<longrightarrow> x \<le> y"
  shows "\<forall>c\<in>set (counters ls). 0 \<le> c \<Longrightarrow> sorted (counters ls) \<Longrightarrow>
         sorted (fst (monitor scale known ls))"
proof (induction ls)
  case Nil
  then show ?case by simp
next
  case (Cons l ls)
  show ?case
  proof (cases "\<exists>counter p. l = CounterLine (Some counter) \<and> known \<and> scale counter = Some p")
    case False
    then have "monitor scale known (l # ls) = monitor scale known ls \<or>
               monitor scale known (l # ls) = ([], False)"
      by (cases l) (auto simp: monitor_CounterLine split: option.splits)
    moreover have "counters (l # ls) = counters ls \<or> (\<exists>c. counters (l # ls) = c # counters ls)"
      by (cases l) (auto simp: counters_CounterLine split: option.splits)
    ultimately show ?thesis using Cons by auto
  next
    case True
    then obtain counter p where l: "l = CounterLine (Some counter)" and k: known
      and p: "scale counter = Some p" by blast
    obtain shown ended where m: "monitor scale known ls = (shown, ended)"
      by (cases "monitor scale known ls")
    from Cons l have pre: "0 \<le> counter" "\<forall>c\<in>set (counters ls). counter \<le> c"
      "\<forall>c\<in>set (counters ls). 0 \<le> c" "sorted (counters ls)"
      by auto
    from Cons.IH[OF pre(3,4)] m have s: "sorted shown" by simp
    have "\<forall>q\<in>set shown. min p 100 \<le> q"
    proof
      fix q assume "q \<in> set shown"
      with m have "q \<in> set (fst (monitor scale known ls))" by simp
      from monitor_values[OF this] show "min p 100 \<le> q"
      proof
        assume "q = 100" then show ?thesis by simp
      next
        assume "\<exists>c x. c \<in> set (counters ls) \<and> scale c = Some x \<and> q = min x 100"
        then obtain c x where c: "c \<in> set (counters ls)" "scale c = Some x" "q = min x 100" by blast
        from pre c(1) have "0 \<le> counter" "counter \<le> c" by auto
        with mono[rule_format, of counter c p x] p c(2) have "p \<le> x" by simp
        with c(3) show ?thesis by simp
      qed
    qed
    with s k p m l show ?thesis by simp
  qed
qed

lemma monitor_le_100: "p \<in> set (fst (monitor scale known ls)) \<Longrightarrow> p \<le> 100"
  by (drule monitor_values) auto

lemma monitor_nonneg:
  assumes "\<forall>a x. 0 \<le> a \<and> scale a = Some x \<longrightarrow> 0 \<le> x" and "\<forall>c\<in>set (counters ls). 0 \<le> c"
    and "p \<in> set (fst (monitor scale known ls))"
  shows "0 \<le> p"
proof -
  from monitor_values[OF assms(3)] show ?thesis
  proof
    assume "p = 100" then show ?thesis by simp
  next
    assume "\<exists>c x. c \<in> set (counters ls) \<and> scale c = Some x \<and> p = min x 100"
    then obtain c x where c: "c \<in> set (counters ls)" "scale c = Some x" "p = min x 100" by blast
    with assms(2) have "0 \<le> c" by blast
    with assms(1)[rule_format, of c x] c(2) have "0 \<le> x" by simp
    with c(3) show ?thesis by simp
  qed
qed

lemma monitor_counters:
  "(\<forall>p\<in>set (fst (monitor scale known ls)). p \<le> 100) \<and>
   ((\<forall>a x. 0 \<le> a \<and> scale a = Some x \<longrightarrow> 0 \<le> x) \<and> (\<forall>c\<in>set (counters ls). 0 \<le> c) \<longrightarrow>
      (\<forall>p\<in>set (fst (monitor scale known ls)). 0 \<le> p)) \<and>
   ((\<forall>a b x y. 0 \<le> a \<and> a \<le> b \<and> scale a = Some x \<and> scale b = Some y \<longrightarrow> x \<le> y) \<and>
    (\<forall>a x. 0 \<le> a \<and> scale a = Some x \<longrightarrow> 0 \<le> x) \<and>
    (\<forall>c\<in>set (counters ls). 0 \<le> c) \<and> sorted (counters ls) \<longrightarrow>
      sorted (0 # fst (monitor scale known ls)))"
proof (intro conjI impI ballI)
  fix p assume "p \<in> set (fst (monitor scale known ls))"
  then show "p \<le> 100" by (rule monitor_le_100)
next
  fix p
  assume "(\<forall>a x. 0 \<le> a \<and> scale a = Some x \<longrightarrow> 0 \<le> x) \<and> (\<forall>c\<in>set (counters ls). 0 \<le> c)"
    and "p \<in> set (fst (monitor scale known ls))"
  then show "0 \<le> p" using monitor_nonneg[of scale ls p known] by blast
next
  assume a: "(\<forall>a b x y. 0 \<le> a \<and> a \<le> b \<and> scale a = Some x \<and> scale b = Some y \<longrightarrow> x \<le> y) \<and>
    (\<forall>a x. 0 \<le> a \<and> scale a = Some x \<longrightarrow> 0 \<le> x) \<and>
    (\<forall>c\<in>set (counters ls). 0 \<le> c) \<and> sorted (counters ls)"
  then have "sorted (fst (monitor scale known ls))" using monitor_sorted[of scale ls known] by blast
  moreover from a have "\<forall>p\<in>set (fst (monitor scale known ls)). 0 \<le> p"
    using monitor_nonneg[of scale ls _ known] by blast
  ultimately show "sorted (0 # fst (monitor scale known ls))" by simp
qed

lemma cumulative_sorted:
  "\<forall>d\<in>set events. 0 \<le> d \<Longrightarrow>
     sorted (cumulative start events) \<and> (\<forall>c\<in>set (cumulative start events). start \<le> c)"
proof (induction events arbitrary: start)
  case Nil
  then show ?case by simp
next
  case (Cons d events)
  then have d: "0 \<le> d" and rest: "\<forall>d\<in>set events. 0 \<le> d" by simp_all
  from Cons.IH[OF rest, of "start + d"] d show ?case by auto
qed

text \<open>
  Every list of counters that start at \<open>start\<close> or above and do not decrease is the list
  of the running totals of non-negative events.
\<close>

lemma cumulative_differences:
  "sorted cs \<Longrightarrow> \<forall>c\<in>set cs. start \<le> c \<Longrightarrow>
     \<exists>events. (\<forall>d\<in>set events. 0 \<le> d) \<and> cs = cumulative start events"
proof (induction cs arbitrary: start)
  case Nil
  have "(\<forall>d\<in>set []. 0 \<le> (d::int)) \<and> [] = cumulative start []" by simp
  then show ?case by blast
next
  case (Cons c cs)
  then have "sorted cs" "\<forall>x\<in>set cs. c \<le> x" "start \<le> c" by auto
  from Cons.IH[OF this(1,2)] obtain events where
    e: "\<forall>d\<in>set events. 0 \<le> d" "cs = cumulative c events" by blast
  with \<open>start \<le> c\<close>
  have "(\<forall>d\<in>set ((c - start) # events). 0 \<le> d) \<and>
        c # cs = cumulative start ((c - start) # events)" by simp
  then show ?case by blast
qed

text \<open>
  Claim C5.  The events of progress of one tool run are non-negative amounts, so the
  counters the loop reads, their running totals, are non-negative and do not decrease.
  The scaled percentage of a non-negative counter being non-negative and monotone (as
  \<^verbatim>\<open>int((counter / total) * 100)\<close> is for a positive total), the values given to the bar,
  from its initial 0 on, do not decrease, and each of them lies between 0 and 100, also
  when the counters exceed the total.
\<close>

theorem progress_percentages:
  assumes "\<forall>a b x y. 0 \<le> a \<and> a \<le> b \<and> scale a = Some x \<and> scale b = Some y \<longrightarrow> x \<le> y"
    and "\<forall>a x. 0 \<le> a \<and> scale a = Some x \<longrightarrow> 0 \<le> x"
    and "\<forall>d\<in>set events. 0 \<le> d"
    and "counters ls = cumulative 0 events"
  shows "sorted (0 # fst (monitor scale known ls)) \<and>
         (\<forall>p\<in>set (0 # fst (monitor scale known ls)). 0 \<le> p \<and> p \<le> 100)"
proof -
  from cumulative_sorted[OF assms(3), of 0] assms(4)
  have c: "(\<forall>c\<in>set (counters ls). 0 \<le> c) \<and> sorted (counters ls)" by simp
  note m = monitor_counters[of scale known ls]
  from m assms(1,2) c have s: "sorted (0 # fst (monitor scale known ls))" by blast
  from m have u: "\<forall>p\<in>set (fst (monitor scale known ls)). p \<le> 100" by blast
  from m assms(2) c have l: "\<forall>p\<in>set (fst (monitor scale known ls)). 0 \<le> p" by blast
  from s u l show ?thesis by simp
qed

text \<open>
  The theorem for a total of 4 frames and the events 1, 1 and 7, that is, the counters 1,
  2 and 9: the last one exceeds the total and is shown as 100.
\<close>

theorem progress_percentages_witness:
  "counters [CounterLine (Some 1), OtherLine, CounterLine None, CounterLine (Some 2), CounterLine (Some 9)]
     = cumulative 0 [1, 1, 7] \<and>
   fst (monitor quarter_scale True
          [CounterLine (Some 1), OtherLine, CounterLine None, CounterLine (Some 2), CounterLine (Some 9)])
     = [25, 50, 100, 100] \<and>
   sorted (0 # fst (monitor quarter_scale True
          [CounterLine (Some 1), OtherLine, CounterLine None, CounterLine (Some 2), CounterLine (Some 9)]))"
proof -
  let ?ls = "[CounterLine (Some 1), OtherLine, CounterLine None, CounterLine (Some 2), CounterLine (Some 9)]"
  have m: "\<forall>a b x y. 0 \<le> a \<and> a \<le> b \<and> quarter_scale a = Some x \<and> quarter_scale b = Some y \<longrightarrow> x \<le> y"
    by (auto simp: quarter_scale_def)
  have n: "\<forall>a x. 0 \<le> a \<and> quarter_scale a = Some x \<longrightarrow> 0 \<le> x"
    by (auto simp: quarter_scale_def)
  have e: "\<forall>d\<in>set [1, 1, 7 :: int]. 0 \<le> d" by simp
  have c: "counters ?ls = cumulative 0 [1, 1, 7]" by simp
  have v: "fst (monitor quarter_scale True ?ls) = [25, 50, 100, 100]"
    by (simp add: quarter_scale_def)
  from progress_percentages[OF m n e c, of True]
  have "sorted (0 # fst (monitor quarter_scale True ?ls))" by blast
  with c v show ?thesis by (intro conjI)
qed

end
